theory Spec2Isabelle
  imports Main "HOL-Library.Finite_Map"
begin

section \<open>Values, strings and the platform\<close>

text \<open>
  The keychain service of the application (\<^verbatim>\<open>src/services/keychainService\<close>) keeps three
  encrypted JSON payloads in the secure keystore of the device.  Its functions are
  \<^verbatim>\<open>async\<close> and wrap their whole body in \<^verbatim>\<open>try { ... } catch { return ... }\<close>.
  A function of the service is embedded in two layers: the body, which returns
  \<open>error + 'a\<close> with every exception as an \<open>Inl\<close> branch, and the function itself,
  which maps \<open>Inl\<close> to the value of the \<^verbatim>\<open>catch\<close> block.

  What \<^verbatim>\<open>JSON.parse\<close> returns is not checked against the TypeScript interfaces
  (\<^verbatim>\<open>as Credential[]\<close> is erased at run time), so the values read from the keystore are
  dynamic JSON values.  An object is a finite map from property names to values (the
  order of the properties shows in the JSON text only, which the service never reads).
  Numbers are the integers: the only number the service writes is \<^verbatim>\<open>Date.now()\<close>.
\<close>

datatype json =
    JNull
  | JBool bool
  | JNum int
  | JStr string
  | JArr "json list"
  | JObj "(string, json) fmap"

datatype error = KeychainError | MalformedUtf8 | SyntaxError | TypeError

text \<open>Truthiness of a JSON value, as tested by \<^verbatim>\<open>!x\<close>, \<^verbatim>\<open>!!x\<close> and \<^verbatim>\<open>x || y\<close>.\<close>

fun truthy :: "json \<Rightarrow> bool" where
  "truthy JNull = False"
| "truthy (JBool b) = b"
| "truthy (JNum n) = (n \<noteq> 0)"
| "truthy (JStr s) = (s \<noteq> [])"
| "truthy (JArr xs) = True"
| "truthy (JObj m) = True"

text \<open>Property read \<^verbatim>\<open>v.k\<close> on a value that is not \<^verbatim>\<open>null\<close>; \<open>None\<close> is \<^verbatim>\<open>undefined\<close>.\<close>

fun get_prop :: "json \<Rightarrow> string \<Rightarrow> json option" where
  "get_prop (JObj m) k = fmlookup m k"
| "get_prop v k = None"

text \<open>
  The cipher (\<^verbatim>\<open>react-native-crypto-js\<close>), the JSON engine and the case mapping of
  strings (\<^verbatim>\<open>String.prototype.toLowerCase\<close>) are consumed from the platform.  They are
  parameters of the model.  The service never looks into a ciphertext or a JSON text, it
  only hands them from one library call to the next, so the model is polymorphic in the
  type \<open>'t\<close> of JSON texts and the type \<open>'b\<close> of ciphertexts.
  \<^verbatim>\<open>CryptoJS.AES.encrypt\<close> with a pass phrase draws a random salt, which is an argument
  here.  Decryption and parsing can throw.
\<close>

record ('t, 'b) platform =
  toLowerCase :: "string \<Rightarrow> string"
  aes_encrypt :: "string \<Rightarrow> nat \<Rightarrow> 't \<Rightarrow> 'b"
  aes_decrypt :: "string \<Rightarrow> 'b \<Rightarrow> error + 't"
  json_stringify :: "json \<Rightarrow> 't"
  json_parse :: "'t \<Rightarrow> error + json"

text \<open>
  The contract of the platform that the round-trip properties rest on: decrypting with
  the key of the encryption gives the plaintext back, and parsing a serialised value
  gives the value back.
\<close>

definition codec_roundtrip :: "('t, 'b) platform \<Rightarrow> bool" where
  "codec_roundtrip pf \<longleftrightarrow>
     (\<forall>k s t. aes_decrypt pf k (aes_encrypt pf k s t) = Inr t) \<and>
     (\<forall>v. json_parse pf (json_stringify pf v) = Inr v)"

text \<open>Lower-casing a string that is in lower case already changes nothing.\<close>

definition lower_idempotent :: "('t, 'b) platform \<Rightarrow> bool" where
  "lower_idempotent pf \<longleftrightarrow> (\<forall>s. toLowerCase pf (toLowerCase pf s) = toLowerCase pf s)"

text \<open>
  What the surroundings decide during one call of the service: whether the keystore
  rejects the read, the write or the reset, the salt the cipher draws, and the clock.
\<close>

record env =
  get_rejects :: bool
  set_rejects :: bool
  reset_rejects :: bool
  salt :: nat
  now :: int

text \<open>
  Modelled from the spec: the secure keystore (\<^verbatim>\<open>react-native-keychain\<close>) is a library,
  none of its code is part of the repository.  Following the contract of the Secure Slot
  Store, the keystore maps a service identifier to the user name and password written
  last; a write replaces the entry entirely, a read of an entry never written or reset
  resolves to \<^verbatim>\<open>false\<close> (\<open>None\<close>), a reset removes the entry and resolves to
  \<^verbatim>\<open>true\<close>, and each call can be rejected by the platform.
\<close>

type_synonym 'b keychain = "string \<Rightarrow> (string \<times> 'b) option"

definition setGenericPassword ::
  "env \<Rightarrow> string \<Rightarrow> 'b \<Rightarrow> string \<Rightarrow> 'b keychain \<Rightarrow> error + 'b keychain" where
  "setGenericPassword ev username password service kc =
     (if set_rejects ev then Inl KeychainError
      else Inr (kc(service \<mapsto> (username, password))))"

definition getGenericPassword ::
  "env \<Rightarrow> string \<Rightarrow> 'b keychain \<Rightarrow> error + (string \<times> 'b) option" where
  "getGenericPassword ev service kc =
     (if get_rejects ev then Inl KeychainError else Inr (kc service))"

definition resetGenericPassword ::
  "env \<Rightarrow> string \<Rightarrow> 'b keychain \<Rightarrow> error + (bool \<times> 'b keychain)" where
  "resetGenericPassword ev service kc =
     (if reset_rejects ev then Inl KeychainError else Inr (True, kc(service := None)))"

section \<open>The keychain service\<close>

definition KEYCHAIN_SERVICE :: string where "KEYCHAIN_SERVICE = ''AccountSetup''"
definition USER_DATA_KEY :: string where "USER_DATA_KEY = ''userData''"
definition CREDENTIALS_KEY :: string where "CREDENTIALS_KEY = ''credentials''"
definition SESSION_KEY :: string where "SESSION_KEY = ''session''"
definition ENCRYPTION_KEY :: string where "ENCRYPTION_KEY = ''AccountSetupSecretKey2024!''"

text \<open>The service identifiers \<^verbatim>\<open>`${KEYCHAIN_SERVICE}_${CREDENTIALS_KEY}`\<close> and
  \<^verbatim>\<open>`${KEYCHAIN_SERVICE}_${SESSION_KEY}`\<close>.\<close>

definition credentials_service :: string where
  "credentials_service = KEYCHAIN_SERVICE @ ''_'' @ CREDENTIALS_KEY"

definition session_service :: string where
  "session_service = KEYCHAIN_SERVICE @ ''_'' @ SESSION_KEY"

text \<open>
  The interfaces \<^verbatim>\<open>UserData\<close> (of the authentication slice) and \<^verbatim>\<open>Credential\<close>.
  \<^verbatim>\<open>Credential\<close> has the fields of \<^verbatim>\<open>UserData\<close> and the password.
\<close>

record UserData =
  email :: string
  firstName :: string
  lastName :: string
  phoneNumber :: string

record Credential = UserData +
  password :: string

text \<open>The object literals the service serialises, with their keys in source order.\<close>

definition credential_json :: "Credential \<Rightarrow> json" where
  "credential_json c =
     JObj (fmap_of_list
       [(''email'', JStr (email c)),
        (''password'', JStr (password c)),
        (''firstName'', JStr (firstName c)),
        (''lastName'', JStr (lastName c)),
        (''phoneNumber'', JStr (phoneNumber c))])"

definition userData_json :: "UserData \<Rightarrow> json" where
  "userData_json u =
     JObj (fmap_of_list
       [(''email'', JStr (email u)),
        (''firstName'', JStr (firstName u)),
        (''lastName'', JStr (lastName u)),
        (''phoneNumber'', JStr (phoneNumber u))])"

definition session_json :: "string \<Rightarrow> int \<Rightarrow> json" where
  "session_json e t = JObj (fmap_of_list [(''email'', JStr e), (''timestamp'', JNum t)])"

definition encryptData :: "('t, 'b) platform \<Rightarrow> env \<Rightarrow> 't \<Rightarrow> 'b" where
  "encryptData pf ev data = aes_encrypt pf ENCRYPTION_KEY (salt ev) data"

definition decryptData :: "('t, 'b) platform \<Rightarrow> 'b \<Rightarrow> error + 't" where
  "decryptData pf encryptedData = aes_decrypt pf ENCRYPTION_KEY encryptedData"

subsection \<open>User data\<close>

definition storeUserDataInKeychain_try ::
  "('t, 'b) platform \<Rightarrow> env \<Rightarrow> UserData \<Rightarrow> 'b keychain \<Rightarrow> error + 'b keychain" where
  "storeUserDataInKeychain_try pf ev userData kc =
     (let jsonData = json_stringify pf (userData_json userData);
          encryptedData = encryptData pf ev jsonData
      in setGenericPassword ev USER_DATA_KEY encryptedData KEYCHAIN_SERVICE kc)"

definition storeUserDataInKeychain ::
  "('t, 'b) platform \<Rightarrow> env \<Rightarrow> UserData \<Rightarrow> 'b keychain \<Rightarrow> bool \<times> 'b keychain" where
  "storeUserDataInKeychain pf ev userData kc =
     (case storeUserDataInKeychain_try pf ev userData kc of
        Inl e \<Rightarrow> (False, kc)
      | Inr kc' \<Rightarrow> (True, kc'))"

definition getUserDataFromKeychain_try ::
  "('t, 'b) platform \<Rightarrow> env \<Rightarrow> 'b keychain \<Rightarrow> error + json" where
  "getUserDataFromKeychain_try pf ev kc =
     (case getGenericPassword ev KEYCHAIN_SERVICE kc of
        Inl e \<Rightarrow> Inl e
      | Inr None \<Rightarrow> Inr JNull
      | Inr (Some (username, pw)) \<Rightarrow>
          (case decryptData pf pw of
             Inl e \<Rightarrow> Inl e
           | Inr decryptedData \<Rightarrow> json_parse pf decryptedData))"

definition getUserDataFromKeychain ::
  "('t, 'b) platform \<Rightarrow> env \<Rightarrow> 'b keychain \<Rightarrow> json" where
  "getUserDataFromKeychain pf ev kc =
     (case getUserDataFromKeychain_try pf ev kc of Inl e \<Rightarrow> JNull | Inr v \<Rightarrow> v)"

definition clearUserDataFromKeychain :: "env \<Rightarrow> 'b keychain \<Rightarrow> bool \<times> 'b keychain" where
  "clearUserDataFromKeychain ev kc =
     (case resetGenericPassword ev KEYCHAIN_SERVICE kc of
        Inl e \<Rightarrow> (False, kc)
      | Inr (result, kc') \<Rightarrow> (result, kc'))"

subsection \<open>Credentials\<close>

definition getCredentialsFromKeychain_try ::
  "('t, 'b) platform \<Rightarrow> env \<Rightarrow> 'b keychain \<Rightarrow> error + json" where
  "getCredentialsFromKeychain_try pf ev kc =
     (case getGenericPassword ev credentials_service kc of
        Inl e \<Rightarrow> Inl e
      | Inr None \<Rightarrow> Inr (JArr [])
      | Inr (Some (username, pw)) \<Rightarrow>
          (case decryptData pf pw of
             Inl e \<Rightarrow> Inl e
           | Inr decryptedData \<Rightarrow> json_parse pf decryptedData))"

definition getCredentialsFromKeychain ::
  "('t, 'b) platform \<Rightarrow> env \<Rightarrow> 'b keychain \<Rightarrow> json" where
  "getCredentialsFromKeychain pf ev kc =
     (case getCredentialsFromKeychain_try pf ev kc of Inl e \<Rightarrow> JArr [] | Inr v \<Rightarrow> v)"

text \<open>
  \<^verbatim>\<open>cred.email.toLowerCase()\<close>: a \<^verbatim>\<open>TypeError\<close> unless \<open>cred\<close> is an object whose
  \<open>email\<close> is a string.
\<close>

definition email_toLowerCase :: "('t, 'b) platform \<Rightarrow> json \<Rightarrow> error + string" where
  "email_toLowerCase pf cred =
     (case get_prop cred ''email'' of
        Some (JStr s) \<Rightarrow> Inr (toLowerCase pf s)
      | _ \<Rightarrow> Inl TypeError)"

text \<open>
  \<^verbatim>\<open>Array.prototype.findIndex\<close> and \<^verbatim>\<open>Array.prototype.find\<close> with a callback that can
  throw: the elements are tested from the left, the first element the callback accepts
  ends the search, and an exception of the callback ends it too.  Calling either on a
  value that is not an array is a \<^verbatim>\<open>TypeError\<close>.
\<close>

fun findIndex_from :: "(json \<Rightarrow> error + bool) \<Rightarrow> json list \<Rightarrow> int \<Rightarrow> error + int" where
  "findIndex_from p [] i = Inr (- 1)"
| "findIndex_from p (x # xs) i =
     (case p x of
        Inl e \<Rightarrow> Inl e
      | Inr True \<Rightarrow> Inr i
      | Inr False \<Rightarrow> findIndex_from p xs (i + 1))"

definition findIndex :: "(json \<Rightarrow> error + bool) \<Rightarrow> json \<Rightarrow> error + int" where
  "findIndex p v = (case v of JArr xs \<Rightarrow> findIndex_from p xs 0 | _ \<Rightarrow> Inl TypeError)"

fun find_in :: "(json \<Rightarrow> error + bool) \<Rightarrow> json list \<Rightarrow> error + json option" where
  "find_in p [] = Inr None"
| "find_in p (x # xs) =
     (case p x of
        Inl e \<Rightarrow> Inl e
      | Inr True \<Rightarrow> Inr (Some x)
      | Inr False \<Rightarrow> find_in p xs)"

definition find_elem :: "(json \<Rightarrow> error + bool) \<Rightarrow> json \<Rightarrow> error + json option" where
  "find_elem p v = (case v of JArr xs \<Rightarrow> find_in p xs | _ \<Rightarrow> Inl TypeError)"

text \<open>The callback \<^verbatim>\<open>cred => cred.email.toLowerCase() === email.toLowerCase()\<close>.\<close>

definition same_email :: "('t, 'b) platform \<Rightarrow> string \<Rightarrow> json \<Rightarrow> error + bool" where
  "same_email pf e cred =
     (case email_toLowerCase pf cred of
        Inl err \<Rightarrow> Inl err
      | Inr s \<Rightarrow> Inr (s = toLowerCase pf e))"

text \<open>The elements of \<^verbatim>\<open>[...existingCredentials]\<close>, reached only for an array.\<close>

fun elements :: "json \<Rightarrow> json list" where
  "elements (JArr xs) = xs"
| "elements v = []"

definition storeCredentialsInKeychain_try ::
  "('t, 'b) platform \<Rightarrow> env \<Rightarrow> string \<Rightarrow> string \<Rightarrow> string \<Rightarrow> string \<Rightarrow> string \<Rightarrow>
     'b keychain \<Rightarrow> error + 'b keychain" where
  "storeCredentialsInKeychain_try pf ev em pw fn ln ph kc =
     (let existingCredentials = getCredentialsFromKeychain pf ev kc in
      case findIndex (same_email pf em) existingCredentials of
        Inl e \<Rightarrow> Inl e
      | Inr credentialIndex \<Rightarrow>
          (let newCredential =
                 JObj (fmap_of_list
                   [(''email'', JStr (toLowerCase pf em)),
                    (''password'', JStr pw),
                    (''firstName'', JStr fn),
                    (''lastName'', JStr ln),
                    (''phoneNumber'', JStr ph)]);
               updatedCredentials =
                 (if credentialIndex \<ge> 0
                  then (elements existingCredentials)[nat credentialIndex := newCredential]
                  else elements existingCredentials @ [newCredential]);
               jsonData = json_stringify pf (JArr updatedCredentials);
               encryptedData = encryptData pf ev jsonData
           in setGenericPassword ev CREDENTIALS_KEY encryptedData credentials_service kc))"

definition storeCredentialsInKeychain ::
  "('t, 'b) platform \<Rightarrow> env \<Rightarrow> string \<Rightarrow> string \<Rightarrow> string \<Rightarrow> string \<Rightarrow> string \<Rightarrow>
     'b keychain \<Rightarrow> bool \<times> 'b keychain" where
  "storeCredentialsInKeychain pf ev em pw fn ln ph kc =
     (case storeCredentialsInKeychain_try pf ev em pw fn ln ph kc of
        Inl e \<Rightarrow> (False, kc)
      | Inr kc' \<Rightarrow> (True, kc'))"

text \<open>
  The callback of \<^verbatim>\<open>validateCredentials\<close>; \<^verbatim>\<open>&&\<close> reads the password only when the
  emails agree, and \<^verbatim>\<open>===\<close> against a string holds for that very string only.
\<close>

definition same_email_and_password ::
  "('t, 'b) platform \<Rightarrow> string \<Rightarrow> string \<Rightarrow> json \<Rightarrow> error + bool" where
  "same_email_and_password pf normalizedEmail pw cred =
     (case email_toLowerCase pf cred of
        Inl err \<Rightarrow> Inl err
      | Inr s \<Rightarrow> Inr (s = normalizedEmail \<and> get_prop cred ''password'' = Some (JStr pw)))"

definition validateCredentials_try ::
  "('t, 'b) platform \<Rightarrow> env \<Rightarrow> string \<Rightarrow> string \<Rightarrow> 'b keychain \<Rightarrow> error + bool" where
  "validateCredentials_try pf ev em pw kc =
     (let credentials = getCredentialsFromKeychain pf ev kc;
          normalizedEmail = toLowerCase pf em
      in case find_elem (same_email_and_password pf normalizedEmail pw) credentials of
           Inl e \<Rightarrow> Inl e
         | Inr None \<Rightarrow> Inr False
         | Inr (Some matchingCredential) \<Rightarrow> Inr (truthy matchingCredential))"

definition validateCredentials ::
  "('t, 'b) platform \<Rightarrow> env \<Rightarrow> string \<Rightarrow> string \<Rightarrow> 'b keychain \<Rightarrow> bool" where
  "validateCredentials pf ev em pw kc =
     (case validateCredentials_try pf ev em pw kc of Inl e \<Rightarrow> False | Inr b \<Rightarrow> b)"

definition getCredentialByEmail_try ::
  "('t, 'b) platform \<Rightarrow> env \<Rightarrow> string \<Rightarrow> 'b keychain \<Rightarrow> error + json" where
  "getCredentialByEmail_try pf ev em kc =
     (let credentials = getCredentialsFromKeychain pf ev kc;
          normalizedEmail = toLowerCase pf em
      in case find_elem (\<lambda>cred. case email_toLowerCase pf cred of
                                  Inl err \<Rightarrow> Inl err
                                | Inr s \<Rightarrow> Inr (s = normalizedEmail)) credentials of
           Inl e \<Rightarrow> Inl e
         | Inr None \<Rightarrow> Inr JNull
         | Inr (Some matchingCredential) \<Rightarrow>
             Inr (if truthy matchingCredential then matchingCredential else JNull))"

definition getCredentialByEmail ::
  "('t, 'b) platform \<Rightarrow> env \<Rightarrow> string \<Rightarrow> 'b keychain \<Rightarrow> json" where
  "getCredentialByEmail pf ev em kc =
     (case getCredentialByEmail_try pf ev em kc of Inl e \<Rightarrow> JNull | Inr v \<Rightarrow> v)"

subsection \<open>Session\<close>

definition createSession_try ::
  "('t, 'b) platform \<Rightarrow> env \<Rightarrow> string \<Rightarrow> 'b keychain \<Rightarrow> error + 'b keychain" where
  "createSession_try pf ev em kc =
     (let session = session_json (toLowerCase pf em) (now ev);
          jsonData = json_stringify pf session;
          encryptedData = encryptData pf ev jsonData
      in setGenericPassword ev SESSION_KEY encryptedData session_service kc)"

definition createSession ::
  "('t, 'b) platform \<Rightarrow> env \<Rightarrow> string \<Rightarrow> 'b keychain \<Rightarrow> bool \<times> 'b keychain" where
  "createSession pf ev em kc =
     (case createSession_try pf ev em kc of
        Inl e \<Rightarrow> (False, kc)
      | Inr kc' \<Rightarrow> (True, kc'))"

definition getSession_try ::
  "('t, 'b) platform \<Rightarrow> env \<Rightarrow> 'b keychain \<Rightarrow> error + json" where
  "getSession_try pf ev kc =
     (case getGenericPassword ev session_service kc of
        Inl e \<Rightarrow> Inl e
      | Inr None \<Rightarrow> Inr JNull
      | Inr (Some (username, pw)) \<Rightarrow>
          (case decryptData pf pw of
             Inl e \<Rightarrow> Inl e
           | Inr decryptedData \<Rightarrow> json_parse pf decryptedData))"

definition getSession :: "('t, 'b) platform \<Rightarrow> env \<Rightarrow> 'b keychain \<Rightarrow> json" where
  "getSession pf ev kc =
     (case getSession_try pf ev kc of Inl e \<Rightarrow> JNull | Inr v \<Rightarrow> v)"

definition clearSession :: "env \<Rightarrow> 'b keychain \<Rightarrow> bool \<times> 'b keychain" where
  "clearSession ev kc =
     (case resetGenericPassword ev session_service kc of
        Inl e \<Rightarrow> (False, kc)
      | Inr (result, kc') \<Rightarrow> (result, kc'))"

section \<open>The screens\<close>

text \<open>
  What the screens share: the keystore, the \<^verbatim>\<open>userData\<close> of the authentication slice
  (\<open>None\<close> is \<^verbatim>\<open>undefined\<close>) and the route of the navigator.
\<close>

record 'b app =
  keychain :: "'b keychain"
  userData :: "json option"
  route :: string

subsection \<open>Home screen\<close>

text \<open>
  \<^verbatim>\<open>handleLogout\<close> dispatches \<^verbatim>\<open>clearUserData()\<close>, awaits \<^verbatim>\<open>clearSession()\<close> and
  \<^verbatim>\<open>clearUserDataFromKeychain()\<close>, whose results it does not read, and navigates to the
  login screen.  Each awaited call meets its own surroundings.
\<close>

definition handleLogout :: "env \<Rightarrow> env \<Rightarrow> ('b, 'z) app_scheme \<Rightarrow> ('b, 'z) app_scheme" where
  "handleLogout ev1 ev2 st =
     (let st1 = st\<lparr>userData := None\<rparr>;
          kc1 = snd (clearSession ev1 (keychain st1));
          kc2 = snd (clearUserDataFromKeychain ev2 kc1)
      in st1\<lparr>keychain := kc2, route := ''Login''\<rparr>)"

subsection \<open>Login screen\<close>

text \<open>
  The state of the login screen: the two form values, the three \<^verbatim>\<open>useState\<close> cells,
  and a record of the service functions called so far.  The record is not in the source;
  it is kept to state which calls a submit makes.
\<close>

datatype service_call = ValidateCredentials | GetCredentialByEmail | CreateSession

record 'b LoginScreen = "'b app" +
  values_email :: string
  values_password :: string
  loginError :: string
  failedAttempts :: nat
  isLockedOut :: bool
  invoked :: "service_call list"

definition MAX_FAILED_ATTEMPTS :: nat where "MAX_FAILED_ATTEMPTS = 5"

text \<open>Decimal rendering of a number inside a template literal.\<close>

fun string_of_nat :: "nat \<Rightarrow> string" where
  "string_of_nat n =
     (if n < 10 then [char_of (48 + n)]
      else string_of_nat (n div 10) @ [char_of (48 + n mod 10)])"

definition locked_out_message :: string where
  "locked_out_message = ''You have been locked out due to multiple failed login attempts.''"

text \<open>
  The object built for \<^verbatim>\<open>setUserData\<close> from the properties of the credential; a property
  that is \<^verbatim>\<open>undefined\<close> is left out.
\<close>

definition user_data_of :: "json \<Rightarrow> json" where
  "user_data_of credential =
     JObj (fmap_of_list
       (concat (map (\<lambda>k. case get_prop credential k of
                            None \<Rightarrow> []
                          | Some v \<Rightarrow> [(k, v)])
                    [''email'', ''firstName'', ''lastName'', ''phoneNumber''])))"

text \<open>
  \<^verbatim>\<open>onSubmit\<close> of the login form.  The three awaited service calls meet the surroundings
  \<open>evV\<close>, \<open>evG\<close> and \<open>evC\<close>.
\<close>

definition onSubmit ::
  "('t, 'b) platform \<Rightarrow> env \<Rightarrow> env \<Rightarrow> env \<Rightarrow> 'b LoginScreen \<Rightarrow> 'b LoginScreen" where
  "onSubmit pf evV evG evC st =
     (let s0 = st\<lparr>loginError := []\<rparr> in
      if isLockedOut s0 then s0\<lparr>loginError := locked_out_message\<rparr>
      else
        let isValid = validateCredentials pf evV (values_email s0) (values_password s0)
                        (keychain s0);
            s1 = s0\<lparr>invoked := invoked s0 @ [ValidateCredentials]\<rparr>
        in
        if \<not> isValid then
          (let newAttempts = failedAttempts s1 + 1;
               s2 = s1\<lparr>failedAttempts := newAttempts\<rparr>
           in if newAttempts \<ge> MAX_FAILED_ATTEMPTS
              then s2\<lparr>isLockedOut := True, loginError := locked_out_message\<rparr>
              else s2\<lparr>loginError :=
                        ''Invalid email or password. '' @
                        string_of_nat (MAX_FAILED_ATTEMPTS - newAttempts) @
                        '' attempt(s) remaining.''\<rparr>)
        else
          (let s2 = s1\<lparr>failedAttempts := 0, isLockedOut := False\<rparr>;
               credential = getCredentialByEmail pf evG (values_email s2) (keychain s2);
               s3 = s2\<lparr>invoked := invoked s2 @ [GetCredentialByEmail]\<rparr>
           in if \<not> truthy credential then s3\<lparr>loginError := ''User data not found''\<rparr>
              else
                (let (sessionSuccess, kc') = createSession pf evC (values_email s3) (keychain s3);
                     s4 = s3\<lparr>keychain := kc', invoked := invoked s3 @ [CreateSession]\<rparr>
                 in if \<not> sessionSuccess then s4\<lparr>loginError := ''Failed to create session''\<rparr>
                    else s4\<lparr>userData := Some (user_data_of credential), route := ''Home''\<rparr>)))"

text \<open>
  A change of the email field: \<^verbatim>\<open>formik.handleChange('email')\<close> stores the text, and the
  effect that depends on \<^verbatim>\<open>formik.values.email\<close> runs when the value is a different one.
\<close>

definition changeEmail :: "string \<Rightarrow> 'b LoginScreen \<Rightarrow> 'b LoginScreen" where
  "changeEmail v st =
     (let s1 = st\<lparr>values_email := v\<rparr> in
      if v = values_email st then s1
      else s1\<lparr>failedAttempts := 0, isLockedOut := False, loginError := []\<rparr>)"

text \<open>Submitting the form several times in a row, the form values unchanged.\<close>

fun submits ::
  "('t, 'b) platform \<Rightarrow> (env \<times> env \<times> env) list \<Rightarrow> 'b LoginScreen \<Rightarrow> 'b LoginScreen" where
  "submits pf [] st = st"
| "submits pf ((evV, evG, evC) # evs) st = submits pf evs (onSubmit pf evV evG evC st)"

section \<open>Auxiliary notions for the statements\<close>

text \<open>A run of sign-ups: each entry is the surroundings of the call and what the user typed.\<close>

fun signups :: "('t, 'b) platform \<Rightarrow> (env \<times> Credential) list \<Rightarrow> 'b keychain \<Rightarrow> 'b keychain" where
  "signups pf [] kc = kc"
| "signups pf ((ev, c) # cs) kc =
     signups pf cs
       (snd (storeCredentialsInKeychain pf ev (email c) (password c) (firstName c)
               (lastName c) (phoneNumber c) kc))"

text \<open>The normalised email of a credential, and the upsert of a list under a given key.\<close>

definition normalized :: "('t, 'b) platform \<Rightarrow> Credential \<Rightarrow> string" where
  "normalized pf c = toLowerCase pf (email c)"

fun upsert ::
  "('t, 'b) platform \<Rightarrow> string \<Rightarrow> Credential \<Rightarrow> Credential list \<Rightarrow> Credential list" where
  "upsert pf k n [] = [n]"
| "upsert pf k n (c # cs) =
     (if normalized pf c = k then n # cs else c # upsert pf k n cs)"

text \<open>
  What a slot of the keystore holds, seen through the cipher and the JSON engine: nothing,
  something that does not decrypt or does not parse, or a JSON value.
\<close>

datatype decoded = Absent | Undecodable | Payload json

definition slot_content :: "('t, 'b) platform \<Rightarrow> 'b keychain \<Rightarrow> string \<Rightarrow> decoded" where
  "slot_content pf kc service =
     (case kc service of
        None \<Rightarrow> Absent
      | Some (username, pw) \<Rightarrow>
          (case aes_decrypt pf ENCRYPTION_KEY pw of
             Inl e \<Rightarrow> Undecodable
           | Inr d \<Rightarrow> (case json_parse pf d of Inl e \<Rightarrow> Undecodable | Inr v \<Rightarrow> Payload v)))"

text \<open>
  The keystore holds a list of credentials: its credentials slot is absent and the list
  is empty, or the slot decodes to the list.
\<close>

definition holds_credentials :: "('t, 'b) platform \<Rightarrow> 'b keychain \<Rightarrow> Credential list \<Rightarrow> bool" where
  "holds_credentials pf kc cs \<longleftrightarrow>
     (case slot_content pf kc credentials_service of
        Absent \<Rightarrow> cs = []
      | Undecodable \<Rightarrow> False
      | Payload v \<Rightarrow> v = JArr (map credential_json cs))"

text \<open>The shapes the service expects: a credential, a list of them, a session.\<close>

definition is_string_prop :: "json \<Rightarrow> string \<Rightarrow> bool" where
  "is_string_prop v k = (case get_prop v k of Some (JStr s) \<Rightarrow> True | _ \<Rightarrow> False)"

definition is_Credential :: "json \<Rightarrow> bool" where
  "is_Credential v \<longleftrightarrow>
     list_all (is_string_prop v) [''email'', ''password'', ''firstName'', ''lastName'', ''phoneNumber'']"

definition is_Credential_list :: "json \<Rightarrow> bool" where
  "is_Credential_list v = (case v of JArr xs \<Rightarrow> list_all is_Credential xs | _ \<Rightarrow> False)"

definition is_Session :: "json \<Rightarrow> bool" where
  "is_Session v \<longleftrightarrow>
     is_string_prop v ''email'' \<and>
     (case get_prop v ''timestamp'' of Some (JNum t) \<Rightarrow> True | _ \<Rightarrow> False)"

text \<open>
  When the search \<^verbatim>\<open>findIndex\<close> of \<^verbatim>\<open>storeCredentialsInKeychain\<close> throws, said without
  the search: the loaded value is not an array, or it is an array in which an element
  without a string email comes before every element whose email matches.
\<close>

definition email_matches :: "('t, 'b) platform \<Rightarrow> string \<Rightarrow> json \<Rightarrow> bool" where
  "email_matches pf em v =
     (case get_prop v ''email'' of
        Some (JStr s) \<Rightarrow> toLowerCase pf s = toLowerCase pf em
      | _ \<Rightarrow> False)"

definition search_throws :: "('t, 'b) platform \<Rightarrow> string \<Rightarrow> json \<Rightarrow> bool" where
  "search_throws pf em v =
     (case v of
        JArr xs \<Rightarrow>
          (\<exists>before bad after. xs = before @ bad # after \<and>
             \<not> is_string_prop bad ''email'' \<and>
             (\<forall>x\<in>set before. \<not> email_matches pf em x))
      | _ \<Rightarrow> True)"

text \<open>
  A case mapping for the examples: it turns the letters \<open>A\<close> to \<open>Z\<close> into \<open>a\<close> to \<open>z\<close>
  and keeps every other character, as \<^verbatim>\<open>String.prototype.toLowerCase\<close> does on ASCII
  strings.
\<close>

definition lower_char :: "char \<Rightarrow> char" where
  "lower_char c =
     (case map_of (zip ''ABCDEFGHIJKLMNOPQRSTUVWXYZ'' ''abcdefghijklmnopqrstuvwxyz'') c of
        None \<Rightarrow> c
      | Some l \<Rightarrow> l)"

definition ascii_lower :: "string \<Rightarrow> string" where
  "ascii_lower s = map lower_char s"

text \<open>
  A symbolic platform for the examples: a JSON text is the value it denotes or garbage,
  a ciphertext is the key, the salt and the plaintext or junk.  Decrypting junk or with
  another key throws, parsing garbage throws.  Strings are lower-cased by the case mapping
  above.
\<close>

datatype jtext = Text json | Garbage string

datatype cipher = Cipher string nat jtext | Junk string

definition symbolic :: "(jtext, cipher) platform" where
  "symbolic =
     \<lparr>toLowerCase = ascii_lower,
      aes_encrypt = Cipher,
      aes_decrypt = (\<lambda>k b. case b of
                             Cipher k' s t \<Rightarrow> if k' = k then Inr t else Inl MalformedUtf8
                           | Junk j \<Rightarrow> Inl MalformedUtf8),
      json_stringify = Text,
      json_parse = (\<lambda>t. case t of Text v \<Rightarrow> Inr v | Garbage g \<Rightarrow> Inl SyntaxError)\<rparr>"

text \<open>Surroundings in which nothing fails, and ones where only the read is rejected.\<close>

definition calm :: env where
  "calm = \<lparr>get_rejects = False, set_rejects = False, reset_rejects = False,
           salt = 7, now = 1700000000000\<rparr>"

definition read_fails :: env where
  "read_fails = calm\<lparr>get_rejects := True\<rparr>"

definition empty_keychain :: "cipher keychain" where
  "empty_keychain = (\<lambda>service. None)"

text \<open>Keystores for the examples.\<close>

definition tampered_keychain :: "cipher keychain" where
  "tampered_keychain =
     empty_keychain
       (credentials_service \<mapsto>
          (CREDENTIALS_KEY, Cipher ENCRYPTION_KEY 7
             (Text (JObj (fmap_of_list [(''other'', JNum 1)])))),
        session_service \<mapsto>
          (SESSION_KEY, Cipher ENCRYPTION_KEY 7 (Text (JStr ''tampered''))))"

definition garbled_keychain :: "cipher keychain" where
  "garbled_keychain =
     empty_keychain
       (credentials_service \<mapsto> (CREDENTIALS_KEY, Junk ''U2FsdGVkX1''),
        session_service \<mapsto> (SESSION_KEY, Cipher ENCRYPTION_KEY 7 (Garbage ''{email:'')))"

definition user1 :: Credential where
  "user1 = \<lparr>email = ''user1@example.com'', firstName = ''John'', lastName = ''Doe'',
            phoneNumber = ''1234567890'', password = ''password123''\<rparr>"

definition user2 :: Credential where
  "user2 = \<lparr>email = ''user2@example.com'', firstName = ''Jane'', lastName = ''Smith'',
            phoneNumber = ''0987654321'', password = ''securepass456''\<rparr>"

definition one_user_keychain :: "cipher keychain" where
  "one_user_keychain =
     empty_keychain
       (credentials_service \<mapsto>
          (CREDENTIALS_KEY, Cipher ENCRYPTION_KEY 7 (Text (JArr [credential_json user1]))))"

definition bad_first_keychain :: "cipher keychain" where
  "bad_first_keychain =
     empty_keychain
       (credentials_service \<mapsto>
          (CREDENTIALS_KEY, Cipher ENCRYPTION_KEY 7
             (Text (JArr [JNum 42, credential_json user1]))))"

definition bad_last_keychain :: "cipher keychain" where
  "bad_last_keychain =
     empty_keychain
       (credentials_service \<mapsto>
          (CREDENTIALS_KEY, Cipher ENCRYPTION_KEY 7
             (Text (JArr [credential_json user1, JNum 42]))))"

definition logged_in_keychain :: "cipher keychain" where
  "logged_in_keychain =
     one_user_keychain
       (session_service \<mapsto>
          (SESSION_KEY, Cipher ENCRYPTION_KEY 7
             (Text (session_json ''user1@example.com'' 1700000000000))),
        KEYCHAIN_SERVICE \<mapsto>
          (USER_DATA_KEY, Cipher ENCRYPTION_KEY 7
             (Text (userData_json \<lparr>email = ''user1@example.com'', firstName = ''John'',
                lastName = ''Doe'', phoneNumber = ''1234567890''\<rparr>))))"

definition home_state :: "cipher app" where
  "home_state =
     \<lparr>keychain = logged_in_keychain,
      userData = Some (userData_json \<lparr>email = ''user1@example.com'', firstName = ''John'',
                lastName = ''Doe'', phoneNumber = ''1234567890''\<rparr>),
      route = ''Home''\<rparr>"

definition login_state :: "cipher LoginScreen" where
  "login_state =
     \<lparr>keychain = one_user_keychain, userData = None, route = ''Login'',
      values_email = ''user1@example.com'', values_password = ''wrongpassword'',
      loginError = [], failedAttempts = 0, isLockedOut = False, invoked = []\<rparr>"

section \<open>Basic facts\<close>

lemma services_distinct:
  "credentials_service \<noteq> session_service"
  "credentials_service \<noteq> KEYCHAIN_SERVICE"
  "session_service \<noteq> KEYCHAIN_SERVICE"
  by (simp_all add: credentials_service_def session_service_def KEYCHAIN_SERVICE_def
      CREDENTIALS_KEY_def SESSION_KEY_def)

lemma symbolic_roundtrip: "codec_roundtrip symbolic"
  by (simp add: codec_roundtrip_def symbolic_def)

subsection \<open>Lower case\<close>

lemma lower_char_idem: "lower_char (lower_char c) = lower_char c"
proof -
  let ?U = "''ABCDEFGHIJKLMNOPQRSTUVWXYZ''" and ?L = "''abcdefghijklmnopqrstuvwxyz''"
  show ?thesis
  proof (cases "map_of (zip ?U ?L) c")
    case None
    then show ?thesis by (simp add: lower_char_def)
  next
    case (Some l)
    then have "l \<in> set ?L"
      by (meson map_of_SomeD set_zip_rightD)
    then have "l \<notin> set ?U"
      by auto
    moreover have "map fst (zip ?U ?L) = ?U"
      by simp
    then have "fst ` set (zip ?U ?L) = set ?U"
      by (metis list.set_map)
    ultimately have "map_of (zip ?U ?L) l = None"
      by (simp only: map_of_eq_None_iff not_False_eq_True)
    with Some show ?thesis by (simp add: lower_char_def)
  qed
qed

lemma symbolic_lower: "toLowerCase symbolic = ascii_lower"
  by (simp add: symbolic_def)

lemma symbolic_lower_idempotent: "lower_idempotent symbolic"
  by (simp add: lower_idempotent_def symbolic_lower ascii_lower_def lower_char_idem)

lemma toLowerCase_idem:
  "lower_idempotent pf \<Longrightarrow> toLowerCase pf (toLowerCase pf s) = toLowerCase pf s"
  by (simp add: lower_idempotent_def)

lemma same_email_cong:
  "toLowerCase pf e1 = toLowerCase pf e2 \<Longrightarrow> same_email pf e1 = same_email pf e2"
  by (rule ext) (simp add: same_email_def cong: sum.case_cong)

subsection \<open>Reading a slot\<close>

lemma getCredentialsFromKeychain_slot:
  "getCredentialsFromKeychain pf ev kc =
     (if get_rejects ev then JArr []
      else case slot_content pf kc credentials_service of
             Absent \<Rightarrow> JArr [] | Undecodable \<Rightarrow> JArr [] | Payload v \<Rightarrow> v)"
  by (simp add: getCredentialsFromKeychain_def getCredentialsFromKeychain_try_def
      getGenericPassword_def decryptData_def slot_content_def
      split: option.split sum.split prod.split)

lemma getSession_slot:
  "getSession pf ev kc =
     (if get_rejects ev then JNull
      else case slot_content pf kc session_service of
             Absent \<Rightarrow> JNull | Undecodable \<Rightarrow> JNull | Payload v \<Rightarrow> v)"
  by (simp add: getSession_def getSession_try_def
      getGenericPassword_def decryptData_def slot_content_def
      split: option.split sum.split prod.split)

lemma getUserDataFromKeychain_slot:
  "getUserDataFromKeychain pf ev kc =
     (if get_rejects ev then JNull
      else case slot_content pf kc KEYCHAIN_SERVICE of
             Absent \<Rightarrow> JNull | Undecodable \<Rightarrow> JNull | Payload v \<Rightarrow> v)"
  by (simp add: getUserDataFromKeychain_def getUserDataFromKeychain_try_def
      getGenericPassword_def decryptData_def slot_content_def
      split: option.split sum.split prod.split)

lemma slot_content_written:
  "codec_roundtrip pf \<Longrightarrow>
   slot_content pf (kc(service \<mapsto> (u, encryptData pf ev (json_stringify pf v)))) service =
     Payload v"
  by (simp add: slot_content_def codec_roundtrip_def encryptData_def)

lemma slot_content_other:
  "service' \<noteq> service \<Longrightarrow>
   slot_content pf (kc(service' := x)) service = slot_content pf kc service"
  by (simp add: slot_content_def)


subsection \<open>Writing a slot\<close>

lemma new_credential_json:
  "JObj (fmap_of_list
     [(''email'', JStr (toLowerCase pf em)), (''password'', JStr pw), (''firstName'', JStr fn),
      (''lastName'', JStr ln), (''phoneNumber'', JStr ph)]) =
   credential_json \<lparr>email = toLowerCase pf em, firstName = fn, lastName = ln,
     phoneNumber = ph, password = pw\<rparr>"
  by (simp add: credential_json_def)

lemma storeCredentialsInKeychain_unfold:
  "storeCredentialsInKeychain pf ev em pw fn ln ph kc =
     (case findIndex (same_email pf em) (getCredentialsFromKeychain pf ev kc) of
        Inl e \<Rightarrow> (False, kc)
      | Inr i \<Rightarrow>
          if set_rejects ev then (False, kc)
          else (True, kc(credentials_service \<mapsto> (CREDENTIALS_KEY,
                  encryptData pf ev (json_stringify pf (JArr
                    (if i \<ge> 0
                     then (elements (getCredentialsFromKeychain pf ev kc))
                            [nat i := credential_json \<lparr>email = toLowerCase pf em, firstName = fn,
                                 lastName = ln, phoneNumber = ph, password = pw\<rparr>]
                     else elements (getCredentialsFromKeychain pf ev kc) @
                            [credential_json \<lparr>email = toLowerCase pf em, firstName = fn,
                                 lastName = ln, phoneNumber = ph, password = pw\<rparr>])))))))"
  by (simp add: storeCredentialsInKeychain_def storeCredentialsInKeychain_try_def
      setGenericPassword_def credential_json_def Let_def split: sum.split)


lemma clearSession_unfold:
  "clearSession ev kc =
     (if reset_rejects ev then (False, kc) else (True, kc(session_service := None)))"
  by (simp add: clearSession_def resetGenericPassword_def)

lemma clearUserDataFromKeychain_unfold:
  "clearUserDataFromKeychain ev kc =
     (if reset_rejects ev then (False, kc) else (True, kc(KEYCHAIN_SERVICE := None)))"
  by (simp add: clearUserDataFromKeychain_def resetGenericPassword_def)



lemma keychain_handleLogout:
  "keychain (handleLogout ev1 ev2 st) =
     (keychain st)
       (session_service := (if reset_rejects ev1 then keychain st session_service else None),
        KEYCHAIN_SERVICE := (if reset_rejects ev2 then keychain st KEYCHAIN_SERVICE else None))"
  by (rule ext)
    (simp add: handleLogout_def clearSession_unfold clearUserDataFromKeychain_unfold Let_def
      services_distinct)

subsection \<open>Lists of credentials\<close>

lemma email_toLowerCase_credential:
  "email_toLowerCase pf (credential_json c) = Inr (normalized pf c)"
  by (simp add: email_toLowerCase_def credential_json_def normalized_def)

lemma password_credential:
  "get_prop (credential_json c) ''password'' = Some (JStr (password c))"
  by (simp add: credential_json_def)

lemma truthy_credential: "truthy (credential_json c)"
  by (simp add: credential_json_def)

lemma same_email_credential:
  "same_email pf em (credential_json c) = Inr (normalized pf c = toLowerCase pf em)"
  by (simp add: same_email_def email_toLowerCase_credential)

lemma find_in_credentials:
  "find_in (same_email_and_password pf k pw) (map credential_json cs) =
     Inr (map_option credential_json (List.find (\<lambda>c. normalized pf c = k \<and> password c = pw) cs))"
  by (induction cs)
    (auto simp: same_email_and_password_def email_toLowerCase_credential password_credential)

lemma validateCredentials_on_list:
  assumes "getCredentialsFromKeychain pf ev kc = JArr (map credential_json cs)"
  shows "validateCredentials pf ev em pw kc \<longleftrightarrow>
           (\<exists>c\<in>set cs. normalized pf c = toLowerCase pf em \<and> password c = pw)"
proof -
  have "validateCredentials pf ev em pw kc \<longleftrightarrow>
          List.find (\<lambda>c. normalized pf c = toLowerCase pf em \<and> password c = pw) cs \<noteq> None"
    using assms
    by (simp add: validateCredentials_def validateCredentials_try_def find_elem_def
        find_in_credentials truthy_credential split: option.split)
  also have "\<dots> \<longleftrightarrow> (\<exists>c\<in>set cs. normalized pf c = toLowerCase pf em \<and> password c = pw)"
    by (auto simp: find_None_iff)
  finally show ?thesis .
qed

subsection \<open>Submitting the login form\<close>

lemma onSubmit_locked:
  "isLockedOut st \<Longrightarrow> onSubmit pf evV evG evC st = st\<lparr>loginError := locked_out_message\<rparr>"
  by (simp add: onSubmit_def)

lemma onSubmit_failed:
  assumes "\<not> isLockedOut st"
    and "\<not> validateCredentials pf evV (values_email st) (values_password st) (keychain st)"
  shows "failedAttempts (onSubmit pf evV evG evC st) = failedAttempts st + 1"
    and "isLockedOut (onSubmit pf evV evG evC st) \<longleftrightarrow>
           MAX_FAILED_ATTEMPTS \<le> failedAttempts st + 1"
    and "keychain (onSubmit pf evV evG evC st) = keychain st"
    and "values_email (onSubmit pf evV evG evC st) = values_email st"
    and "values_password (onSubmit pf evV evG evC st) = values_password st"
    and "invoked (onSubmit pf evV evG evC st) = invoked st @ [ValidateCredentials]"
  using assms by (simp_all add: onSubmit_def Let_def)

lemma failed_submits:
  assumes "\<forall>e\<in>set evs. \<not> validateCredentials pf (fst e) (values_email st)
             (values_password st) (keychain st)"
    and "\<not> isLockedOut st"
    and "failedAttempts st + length evs \<le> MAX_FAILED_ATTEMPTS"
  shows "failedAttempts (submits pf evs st) = failedAttempts st + length evs \<and>
         (isLockedOut (submits pf evs st) \<longleftrightarrow>
            evs \<noteq> [] \<and> failedAttempts st + length evs = MAX_FAILED_ATTEMPTS) \<and>
         keychain (submits pf evs st) = keychain st \<and>
         values_email (submits pf evs st) = values_email st \<and>
         values_password (submits pf evs st) = values_password st \<and>
         invoked (submits pf evs st) = invoked st @ replicate (length evs) ValidateCredentials"
  using assms
proof (induction evs arbitrary: st)
  case Nil
  then show ?case by simp
next
  case (Cons e evs)
  obtain evV evG evC where e: "e = (evV, evG, evC)"
    by (cases e) auto
  let ?s = "onSubmit pf evV evG evC st"
  have bad: "\<not> validateCredentials pf evV (values_email st) (values_password st) (keychain st)"
    using Cons.prems(1) e by simp
  note step = onSubmit_failed [OF Cons.prems(2) bad, of evG evC]
  show ?case
  proof (cases "evs = []")
    case True
    with step e Cons.prems(3) show ?thesis by auto
  next
    case False
    then have a: "\<not> isLockedOut ?s"
      using step(2) Cons.prems(3) by (cases evs) simp_all
    have b: "\<forall>e\<in>set evs. \<not> validateCredentials pf (fst e) (values_email ?s)
               (values_password ?s) (keychain ?s)"
      using Cons.prems(1) step by simp
    have c: "failedAttempts ?s + length evs \<le> MAX_FAILED_ATTEMPTS"
      using Cons.prems(3) step(1) by simp
    show ?thesis
      using Cons.IH [OF b a c] step e False by (simp add: replicate_app_Cons_same)
  qed
qed

lemma changeEmail_resets:
  "v \<noteq> values_email st \<Longrightarrow>
   failedAttempts (changeEmail v st) = 0 \<and> \<not> isLockedOut (changeEmail v st)"
  by (simp add: changeEmail_def Let_def)

subsection \<open>Looking up what was stored\<close>

lemma find_after_upsert:
  assumes "0 \<le> i0" and "findIndex_from p xs i0 = Inr j" and "p new = Inr True"
  shows "(j = - 1 \<and> find_in p (xs @ [new]) = Inr (Some new)) \<or>
         (i0 \<le> j \<and> find_in p (xs[nat (j - i0) := new]) = Inr (Some new))"
  using assms
proof (induction xs arbitrary: i0)
  case Nil
  then show ?case by simp
next
  case (Cons x xs)
  show ?case
  proof (cases "p x")
    case (Inl e)
    with Cons.prems show ?thesis by simp
  next
    case (Inr b)
    show ?thesis
    proof (cases b)
      case True
      with Inr Cons.prems show ?thesis by simp
    next
      case False
      with Inr Cons.prems have r: "findIndex_from p xs (i0 + 1) = Inr j"
        by simp
      have "0 \<le> i0 + 1"
        using Cons.prems(1) by simp
      from Cons.IH [OF this r Cons.prems(3)]
      show ?thesis
      proof
        assume "j = - 1 \<and> find_in p (xs @ [new]) = Inr (Some new)"
        with Inr False show ?thesis by simp
      next
        assume a: "i0 + 1 \<le> j \<and> find_in p (xs[nat (j - (i0 + 1)) := new]) = Inr (Some new)"
        then have "nat (j - i0) = Suc (nat (j - (i0 + 1)))"
          by linarith
        with a Inr False show ?thesis by simp
      qed
    qed
  qed
qed

lemma same_email_eq:
  "(\<lambda>cred. case email_toLowerCase pf cred of Inl err \<Rightarrow> Inl err | Inr s \<Rightarrow> Inr (s = toLowerCase pf em)) =
   same_email pf em"
  by (rule ext) (simp add: same_email_def)

lemma getCredentialByEmail_unfold:
  "getCredentialByEmail pf ev em kc =
     (case find_elem (same_email pf em) (getCredentialsFromKeychain pf ev kc) of
        Inl e \<Rightarrow> JNull
      | Inr None \<Rightarrow> JNull
      | Inr (Some c) \<Rightarrow> if truthy c then c else JNull)"
  by (simp add: getCredentialByEmail_def getCredentialByEmail_try_def same_email_eq Let_def
      split: sum.split option.split)

lemma same_email_new:
  "lower_idempotent pf \<Longrightarrow>
   same_email pf em (credential_json \<lparr>email = toLowerCase pf em, firstName = fn, lastName = ln,
     phoneNumber = ph, password = pw\<rparr>) = Inr True"
  by (simp add: same_email_credential normalized_def toLowerCase_idem)

subsection \<open>The stored list along a run of sign-ups\<close>

lemma findIndex_upsert:
  assumes "0 \<le> i0"
  shows "\<exists>j. findIndex_from (same_email pf em) (map credential_json cs) i0 = Inr j \<and>
           (if 0 \<le> j then (map credential_json cs)[nat (j - i0) := credential_json n]
            else map credential_json cs @ [credential_json n]) =
           map credential_json (upsert pf (toLowerCase pf em) n cs)"
proof -
  have "\<exists>j. findIndex_from (same_email pf em) (map credential_json cs) i0 = Inr j \<and>
           (j = - 1 \<or> i0 \<le> j) \<and>
           (if 0 \<le> j then (map credential_json cs)[nat (j - i0) := credential_json n]
            else map credential_json cs @ [credential_json n]) =
           map credential_json (upsert pf (toLowerCase pf em) n cs)"
    using assms
  proof (induction cs arbitrary: i0)
    case Nil
    then show ?case by simp
  next
    case (Cons c cs)
    show ?case
    proof (cases "normalized pf c = toLowerCase pf em")
      case True
      with Cons.prems show ?thesis
        by (simp add: same_email_credential)
    next
      case False
      have "0 \<le> i0 + 1"
        using Cons.prems by simp
      from Cons.IH [OF this] obtain j
        where j: "findIndex_from (same_email pf em) (map credential_json cs) (i0 + 1) = Inr j"
          and r: "j = - 1 \<or> i0 + 1 \<le> j"
          and u: "(if 0 \<le> j then (map credential_json cs)[nat (j - (i0 + 1)) := credential_json n]
                   else map credential_json cs @ [credential_json n]) =
                  map credential_json (upsert pf (toLowerCase pf em) n cs)"
        by blast
      from r show ?thesis
      proof
        assume "j = - 1"
        with j u False show ?thesis
          by (simp add: same_email_credential)
      next
        assume a: "i0 + 1 \<le> j"
        then have "nat (j - i0) = Suc (nat (j - (i0 + 1)))"
          by linarith
        moreover have "0 \<le> j"
          using a Cons.prems by simp
        ultimately show ?thesis
          using j u False a by (simp add: same_email_credential)
      qed
    qed
  qed
  then show ?thesis by blast
qed

lemma store_on_list:
  assumes "getCredentialsFromKeychain pf ev kc = JArr (map credential_json cs)"
  shows "storeCredentialsInKeychain pf ev em pw fn ln ph kc =
     (if set_rejects ev then (False, kc)
      else (True, kc(credentials_service \<mapsto> (CREDENTIALS_KEY,
              encryptData pf ev (json_stringify pf (JArr (map credential_json
                (upsert pf (toLowerCase pf em)
                   \<lparr>email = toLowerCase pf em, firstName = fn, lastName = ln,
                     phoneNumber = ph, password = pw\<rparr> cs))))))))"
proof -
  let ?n = "\<lparr>email = toLowerCase pf em, firstName = fn, lastName = ln,
                     phoneNumber = ph, password = pw\<rparr>"
  from findIndex_upsert [of 0 pf em cs ?n] obtain j
    where j: "findIndex_from (same_email pf em) (map credential_json cs) 0 = Inr j"
      and u0: "(if 0 \<le> j then (map credential_json cs)[nat (j - 0) := credential_json ?n]
               else map credential_json cs @ [credential_json ?n]) =
              map credential_json (upsert pf (toLowerCase pf em) ?n cs)"
    by blast
  from u0 have u: "(if 0 \<le> j then (map credential_json cs)[nat j := credential_json ?n]
               else map credential_json cs @ [credential_json ?n]) =
              map credential_json (upsert pf (toLowerCase pf em) ?n cs)"
    by (simp cong: if_cong)
  show ?thesis
    using j by (simp add: storeCredentialsInKeychain_unfold assms findIndex_def flip: u)
qed

lemma map_normalized_upsert:
  "normalized pf n = k \<Longrightarrow>
   map (normalized pf) (upsert pf k n cs) =
     (if k \<in> normalized pf ` set cs then map (normalized pf) cs else map (normalized pf) cs @ [k])"
  by (induction cs) auto

lemma distinct_upsert:
  "distinct (map (normalized pf) cs) \<Longrightarrow> normalized pf n = k \<Longrightarrow>
   distinct (map (normalized pf) (upsert pf k n cs))"
  by (simp add: map_normalized_upsert)

lemma filter_upsert:
  "distinct (map (normalized pf) cs) \<Longrightarrow> normalized pf n = k \<Longrightarrow>
   filter (\<lambda>c. normalized pf c = k) (upsert pf k n cs) = [n]"
proof (induction cs)
  case Nil
  then show ?case by simp
next
  case (Cons c cs)
  show ?case
  proof (cases "normalized pf c = k")
    case True
    with Cons.prems have "k \<notin> normalized pf ` set cs"
      by simp
    then have "\<forall>x\<in>set cs. normalized pf x \<noteq> k"
      by blast
    then have "filter (\<lambda>c. normalized pf c = k) cs = []"
      by (simp add: filter_empty_conv)
    with True Cons.prems show ?thesis by simp
  next
    case False
    with Cons show ?thesis by simp
  qed
qed

lemma read_of_holds:
  "holds_credentials pf kc cs \<Longrightarrow>
   getCredentialsFromKeychain pf ev kc =
     JArr (map credential_json (if get_rejects ev then [] else cs))"
  by (auto simp: holds_credentials_def getCredentialsFromKeychain_slot split: decoded.splits)

lemma holds_step:
  assumes "codec_roundtrip pf" and "lower_idempotent pf"
    and "holds_credentials pf kc cs" and "distinct (map (normalized pf) cs)"
  shows "\<exists>cs'. holds_credentials pf
            (snd (storeCredentialsInKeychain pf ev em pw fn ln ph kc)) cs' \<and>
          distinct (map (normalized pf) cs') \<and>
          fst (storeCredentialsInKeychain pf ev em pw fn ln ph kc) = (\<not> set_rejects ev) \<and>
          (\<not> set_rejects ev \<longrightarrow>
             filter (\<lambda>c. normalized pf c = toLowerCase pf em) cs' =
               [\<lparr>email = toLowerCase pf em, firstName = fn, lastName = ln,
                 phoneNumber = ph, password = pw\<rparr>])"
proof -
  let ?n = "\<lparr>email = toLowerCase pf em, firstName = fn, lastName = ln,
             phoneNumber = ph, password = pw\<rparr>"
  let ?cs = "if get_rejects ev then [] else cs"
  have n: "normalized pf ?n = toLowerCase pf em"
    using assms(2) by (simp add: normalized_def toLowerCase_idem)
  have d: "distinct (map (normalized pf) ?cs)"
    using assms(4) by simp
  note s = store_on_list [OF read_of_holds [OF assms(3)], of ev em pw fn ln ph]
  show ?thesis
  proof (cases "set_rejects ev")
    case True
    with s assms(3,4) show ?thesis by auto
  next
    case False
    have "holds_credentials pf (snd (storeCredentialsInKeychain pf ev em pw fn ln ph kc))
            (upsert pf (toLowerCase pf em) ?n ?cs)"
      using False assms(1) by (simp add: s holds_credentials_def slot_content_written)
    moreover have "distinct (map (normalized pf) (upsert pf (toLowerCase pf em) ?n ?cs))"
      using d n by (rule distinct_upsert)
    moreover have "filter (\<lambda>c. normalized pf c = toLowerCase pf em)
                     (upsert pf (toLowerCase pf em) ?n ?cs) = [?n]"
      using d n by (rule filter_upsert)
    moreover have "fst (storeCredentialsInKeychain pf ev em pw fn ln ph kc) = (\<not> set_rejects ev)"
      using False by (simp add: s)
    ultimately show ?thesis by blast
  qed
qed

lemma holds_run:
  assumes "codec_roundtrip pf" and "lower_idempotent pf"
  shows "holds_credentials pf kc cs \<Longrightarrow> distinct (map (normalized pf) cs) \<Longrightarrow>
         \<exists>cs'. holds_credentials pf (signups pf calls kc) cs' \<and>
               distinct (map (normalized pf) cs')"
proof (induction calls arbitrary: kc cs)
  case Nil
  then show ?case by auto
next
  case (Cons a calls)
  obtain ev c where a: "a = (ev, c)"
    by (cases a)
  from holds_step [OF assms Cons.prems, of ev "email c" "password c" "firstName c"
      "lastName c" "phoneNumber c"]
  obtain cs' where "holds_credentials pf
            (snd (storeCredentialsInKeychain pf ev (email c) (password c) (firstName c)
               (lastName c) (phoneNumber c) kc)) cs'"
    and "distinct (map (normalized pf) cs')"
    by blast
  from Cons.IH [OF this] show ?case
    by (simp add: a)
qed

lemma holds_absent: "kc credentials_service = None \<Longrightarrow> holds_credentials pf kc []"
  by (simp add: holds_credentials_def slot_content_def)

lemma run_from_absent:
  assumes "codec_roundtrip pf" and "lower_idempotent pf" and "kc0 credentials_service = None"
  shows "\<exists>cs. holds_credentials pf (signups pf calls kc0) cs \<and> distinct (map (normalized pf) cs)"
proof -
  have "holds_credentials pf kc0 []"
    using assms(3) by (rule holds_absent)
  then show ?thesis
    using holds_run [OF assms(1,2), of kc0 "[]" calls] by simp
qed

lemma store_calm:
  assumes "codec_roundtrip pf" and "holds_credentials pf kc cs"
    and "\<not> get_rejects ev" and "\<not> set_rejects ev"
  shows "fst (storeCredentialsInKeychain pf ev em pw fn ln ph kc) \<and>
         holds_credentials pf (snd (storeCredentialsInKeychain pf ev em pw fn ln ph kc))
           (upsert pf (toLowerCase pf em)
              \<lparr>email = toLowerCase pf em, firstName = fn, lastName = ln,
                phoneNumber = ph, password = pw\<rparr> cs)"
  using assms store_on_list [OF read_of_holds [OF assms(2)], of ev em pw fn ln ph]
  by (simp add: holds_credentials_def slot_content_written)

subsection \<open>When the search throws\<close>

lemma same_email_cases:
  "same_email pf em x =
     (if is_string_prop x ''email'' then Inr (email_matches pf em x) else Inl TypeError)"
  by (simp add: same_email_def email_toLowerCase_def is_string_prop_def email_matches_def
      split: option.split json.split)

lemma findIndex_from_throws:
  "isl (findIndex_from (same_email pf em) xs i0) \<longleftrightarrow>
     (\<exists>before bad after. xs = before @ bad # after \<and>
        \<not> is_string_prop bad ''email'' \<and>
        (\<forall>x\<in>set before. \<not> email_matches pf em x))"
proof (induction xs arbitrary: i0)
  case Nil
  then show ?case by simp
next
  case (Cons x xs)
  show ?case
  proof (cases "is_string_prop x ''email''")
    case False
    then have "x # xs = [] @ x # xs \<and> \<not> is_string_prop x ''email'' \<and>
        (\<forall>y\<in>set []. \<not> email_matches pf em y)"
      by simp
    then have "\<exists>before bad after. x # xs = before @ bad # after \<and>
        \<not> is_string_prop bad ''email'' \<and> (\<forall>y\<in>set before. \<not> email_matches pf em y)"
      by blast
    with False show ?thesis
      by (simp add: same_email_cases)
  next
    case True
    show ?thesis
    proof (cases "email_matches pf em x")
      case m: True
      have "\<not> (\<exists>before bad after. x # xs = before @ bad # after \<and>
        \<not> is_string_prop bad ''email'' \<and> (\<forall>y\<in>set before. \<not> email_matches pf em y))"
      proof
        assume "\<exists>before bad after. x # xs = before @ bad # after \<and>
          \<not> is_string_prop bad ''email'' \<and> (\<forall>y\<in>set before. \<not> email_matches pf em y)"
        then obtain before bad after where e: "x # xs = before @ bad # after"
          and b: "\<not> is_string_prop bad ''email''"
          and n: "\<forall>y\<in>set before. \<not> email_matches pf em y"
          by blast
        show False
        proof (cases before)
          case Nil
          with e b True show False by simp
        next
          case (Cons y ys)
          with e n m show False by simp
        qed
      qed
      with True m show ?thesis
        by (simp add: same_email_cases)
    next
      case m: False
      have "(\<exists>before bad after. x # xs = before @ bad # after \<and>
               \<not> is_string_prop bad ''email'' \<and> (\<forall>y\<in>set before. \<not> email_matches pf em y)) \<longleftrightarrow>
            (\<exists>before bad after. xs = before @ bad # after \<and>
               \<not> is_string_prop bad ''email'' \<and> (\<forall>y\<in>set before. \<not> email_matches pf em y))"
        (is "?L \<longleftrightarrow> ?R")
      proof
        assume ?L
        then obtain before bad after where e: "x # xs = before @ bad # after"
          and b: "\<not> is_string_prop bad ''email''"
          and n: "\<forall>y\<in>set before. \<not> email_matches pf em y"
          by blast
        show ?R
        proof (cases before)
          case Nil
          with e b True show ?thesis by simp
        next
          case (Cons y ys)
          with e have "xs = ys @ bad # after"
            by simp
          moreover have "\<forall>y\<in>set ys. \<not> email_matches pf em y"
            using n Cons by simp
          ultimately show ?thesis
            using b by blast
        qed
      next
        assume ?R
        then obtain before bad after where e: "xs = before @ bad # after"
          and b: "\<not> is_string_prop bad ''email''"
          and n: "\<forall>y\<in>set before. \<not> email_matches pf em y"
          by blast
        from e have "x # xs = (x # before) @ bad # after"
          by simp
        moreover have "\<forall>y\<in>set (x # before). \<not> email_matches pf em y"
          using n m by simp
        ultimately show ?L
          using b by blast
      qed
      with True m Cons.IH [of "i0 + 1"] show ?thesis
        by (simp add: same_email_cases)
    qed
  qed
qed

lemma findIndex_throws: "isl (findIndex (same_email pf em) v) \<longleftrightarrow> search_throws pf em v"
  by (cases v) (simp_all add: findIndex_def search_throws_def findIndex_from_throws)

lemma store_succeeds_iff:
  "fst (storeCredentialsInKeychain pf ev em pw fn ln ph kc) \<longleftrightarrow>
     \<not> set_rejects ev \<and> \<not> search_throws pf em (getCredentialsFromKeychain pf ev kc)"
  by (simp add: storeCredentialsInKeychain_unfold findIndex_throws [symmetric]
      split: sum.split)

lemma search_throws_empty: "\<not> search_throws pf em (JArr [])"
  by (simp add: search_throws_def)

subsection \<open>Credentials as objects\<close>

lemma credential_json_inject: "credential_json c = credential_json c' \<longleftrightarrow> c = c'"
proof
  assume "credential_json c = credential_json c'"
  then have "get_prop (credential_json c) k = get_prop (credential_json c') k" for k
    by simp
  from this [of "''email''"] this [of "''password''"] this [of "''firstName''"]
    this [of "''lastName''"] this [of "''phoneNumber''"]
  show "c = c'"
    by (cases c, cases c') (simp add: credential_json_def)
qed simp

lemma map_credential_json_inject:
  "map credential_json cs = map credential_json cs' \<longleftrightarrow> cs = cs'"
  by (simp add: inj_map_eq_map inj_on_def credential_json_inject)

lemma validate_unique:
  assumes "getCredentialsFromKeychain pf ev kc = JArr (map credential_json cs)"
    and "distinct (map (normalized pf) cs)"
    and "validateCredentials pf ev em pw kc" and "pw' \<noteq> pw"
  shows "\<not> validateCredentials pf ev em pw' kc"
proof
  have a: "validateCredentials pf ev em p kc \<longleftrightarrow>
            (\<exists>c\<in>set cs. normalized pf c = toLowerCase pf em \<and> password c = p)" for p
    using assms(1) by (rule validateCredentials_on_list)
  assume "validateCredentials pf ev em pw' kc"
  then obtain c' where c': "c' \<in> set cs" "normalized pf c' = toLowerCase pf em" "password c' = pw'"
    using a by blast
  from assms(3) obtain c where c: "c \<in> set cs" "normalized pf c = toLowerCase pf em"
    "password c = pw"
    using a by blast
  from assms(2) have "inj_on (normalized pf) (set cs)"
    by (simp add: distinct_map)
  with c c' have "c = c'"
    by (simp add: inj_on_def)
  with c c' assms(4) show False by simp
qed

section \<open>Case-insensitive email\<close>

text \<open>
  Claim C4.  Two emails that differ only in letter case, that is, with the same lower-case
  form under the case mapping of the platform, are treated alike: in the same keystore
  and the same surroundings,
  \<^verbatim>\<open>storeCredentialsInKeychain\<close> returns the same result and leaves the same keystore,
  and \<^verbatim>\<open>validateCredentials\<close> and \<^verbatim>\<open>getCredentialByEmail\<close> return the same value, whatever
  the platform, the stored state and the other arguments.
\<close>

theorem email_case_insensitive:
  assumes "toLowerCase pf e1 = toLowerCase pf e2"
  shows "storeCredentialsInKeychain pf ev e1 pw fn ln ph kc =
           storeCredentialsInKeychain pf ev e2 pw fn ln ph kc \<and>
         validateCredentials pf ev e1 pw kc = validateCredentials pf ev e2 pw kc \<and>
         getCredentialByEmail pf ev e1 kc = getCredentialByEmail pf ev e2 kc"
proof -
  have "same_email pf e1 = same_email pf e2"
    using assms by (rule same_email_cong)
  then show ?thesis
    unfolding storeCredentialsInKeychain_def storeCredentialsInKeychain_try_def
      validateCredentials_def validateCredentials_try_def
      getCredentialByEmail_def getCredentialByEmail_try_def assms
    by simp
qed

text \<open>The emails \<^verbatim>\<open>USER1@Example.com\<close> and \<^verbatim>\<open>user1@EXAMPLE.COM\<close> on a keystore with one user.\<close>

theorem email_case_insensitive_witness:
  "''USER1@Example.com'' \<noteq> ''user1@EXAMPLE.COM'' \<and>
   toLowerCase symbolic ''USER1@Example.com'' = toLowerCase symbolic ''user1@EXAMPLE.COM'' \<and>
   storeCredentialsInKeychain symbolic calm ''USER1@Example.com'' ''newpassword'' ''Jane''
       ''Smith'' ''0987654321'' one_user_keychain =
     storeCredentialsInKeychain symbolic calm ''user1@EXAMPLE.COM'' ''newpassword'' ''Jane''
       ''Smith'' ''0987654321'' one_user_keychain \<and>
   validateCredentials symbolic calm ''USER1@Example.com'' ''password123'' one_user_keychain =
     validateCredentials symbolic calm ''user1@EXAMPLE.COM'' ''password123'' one_user_keychain \<and>
   getCredentialByEmail symbolic calm ''USER1@Example.com'' one_user_keychain =
     getCredentialByEmail symbolic calm ''user1@EXAMPLE.COM'' one_user_keychain"
proof -
  have h: "toLowerCase symbolic ''USER1@Example.com'' = toLowerCase symbolic ''user1@EXAMPLE.COM''"
    by (simp add: symbolic_lower ascii_lower_def lower_char_def)
  show ?thesis
    using h email_case_insensitive [OF h, of calm _ _ _ _ one_user_keychain]
    by simp
qed

section \<open>Decode failure\<close>

text \<open>
  Claim C6, as amended.  When the read of the keystore is rejected, the slot is absent,
  the content of the slot does not decrypt or the decrypted text does not parse as JSON,
  \<^verbatim>\<open>getCredentialsFromKeychain\<close> returns the empty list and \<^verbatim>\<open>getSession\<close> returns
  \<^verbatim>\<open>null\<close>, so a decode failure is treated as an absent slot; both functions return a
  value in every case, they never throw.  A payload that parses as JSON is returned as
  it was parsed, whatever its shape.
\<close>

theorem decode_failure_as_absent:
  "(get_rejects ev \<or> slot_content pf kc credentials_service \<in> {Absent, Undecodable}
      \<longrightarrow> getCredentialsFromKeychain pf ev kc = JArr []) \<and>
   (get_rejects ev \<or> slot_content pf kc session_service \<in> {Absent, Undecodable}
      \<longrightarrow> getSession pf ev kc = JNull) \<and>
   (\<not> get_rejects ev \<and> slot_content pf kc credentials_service = Payload v
      \<longrightarrow> getCredentialsFromKeychain pf ev kc = v) \<and>
   (\<not> get_rejects ev \<and> slot_content pf kc session_service = Payload w
      \<longrightarrow> getSession pf ev kc = w)"
  by (auto simp: getCredentialsFromKeychain_slot getSession_slot)

text \<open>
  A keystore whose two slots hold junk and an unparseable text, and one whose slots hold
  JSON of another shape.
\<close>

theorem decode_failure_as_absent_witness:
  "slot_content symbolic garbled_keychain credentials_service = Undecodable \<and>
   getCredentialsFromKeychain symbolic calm garbled_keychain = JArr [] \<and>
   slot_content symbolic garbled_keychain session_service = Undecodable \<and>
   getSession symbolic calm garbled_keychain = JNull \<and>
   \<not> get_rejects calm \<and>
   slot_content symbolic tampered_keychain credentials_service = Payload (JObj (fmap_of_list [(''other'', JNum 1)])) \<and>
   getCredentialsFromKeychain symbolic calm tampered_keychain = JObj (fmap_of_list [(''other'', JNum 1)]) \<and>
   slot_content symbolic tampered_keychain session_service = Payload (JStr ''tampered'') \<and>
   getSession symbolic calm tampered_keychain = JStr ''tampered''"
proof -
  have a: "slot_content symbolic garbled_keychain credentials_service = Undecodable"
    and b: "slot_content symbolic garbled_keychain session_service = Undecodable"
    and c: "slot_content symbolic tampered_keychain credentials_service =
              Payload (JObj (fmap_of_list [(''other'', JNum 1)]))"
    and d: "slot_content symbolic tampered_keychain session_service = Payload (JStr ''tampered'')"
    and e: "\<not> get_rejects calm"
    by (simp_all add: slot_content_def garbled_keychain_def tampered_keychain_def
        symbolic_def services_distinct calm_def)
  show ?thesis
    using a b c d e
      decode_failure_as_absent [of calm symbolic garbled_keychain]
      decode_failure_as_absent [of calm symbolic tampered_keychain
        "JObj (fmap_of_list [(''other'', JNum 1)])" "JStr ''tampered''"]
    by simp
qed

text \<open>
  The claim as it was stated fails on a payload that is JSON of another shape: an object
  in the credentials slot is returned by \<^verbatim>\<open>getCredentialsFromKeychain\<close> instead of the
  empty list, and a string in the session slot is returned by \<^verbatim>\<open>getSession\<close> instead
  of \<^verbatim>\<open>null\<close>.
\<close>

theorem wrong_shape_payload_returned:
  "slot_content symbolic tampered_keychain credentials_service =
     Payload (JObj (fmap_of_list [(''other'', JNum 1)])) \<and>
   \<not> is_Credential_list (JObj (fmap_of_list [(''other'', JNum 1)])) \<and>
   getCredentialsFromKeychain symbolic calm tampered_keychain \<noteq> JArr [] \<and>
   slot_content symbolic tampered_keychain session_service = Payload (JStr ''tampered'') \<and>
   \<not> is_Session (JStr ''tampered'') \<and>
   getSession symbolic calm tampered_keychain \<noteq> JNull"
  by (simp add: getCredentialsFromKeychain_slot getSession_slot slot_content_def
      tampered_keychain_def symbolic_def calm_def services_distinct is_Credential_list_def
      is_Session_def is_string_prop_def)

section \<open>The result of an upsert\<close>

text \<open>
  Claim C7, as amended.  \<^verbatim>\<open>storeCredentialsInKeychain\<close> returns \<^verbatim>\<open>false\<close> exactly when
  the write to the keystore is rejected or the search through the loaded list throws,
  that is, when the loaded value is not an array or an element without a string email
  is reached before a match; it returns \<^verbatim>\<open>true\<close> otherwise.  A failure while the
  existing list is read or decoded does not make it return \<^verbatim>\<open>false\<close>: the list is then
  taken as empty, and the result is decided by the write alone.
\<close>

theorem upsert_result:
  "(fst (storeCredentialsInKeychain pf ev em pw fn ln ph kc) \<longleftrightarrow>
      \<not> set_rejects ev \<and> \<not> search_throws pf em (getCredentialsFromKeychain pf ev kc)) \<and>
   (get_rejects ev \<or> slot_content pf kc credentials_service \<in> {Absent, Undecodable} \<longrightarrow>
      fst (storeCredentialsInKeychain pf ev em pw fn ln ph kc) = (\<not> set_rejects ev))"
proof -
  have "getCredentialsFromKeychain pf ev kc = JArr []"
    if "get_rejects ev \<or> slot_content pf kc credentials_service \<in> {Absent, Undecodable}"
    using that by (auto simp: getCredentialsFromKeychain_slot)
  then show ?thesis
    by (auto simp: store_succeeds_iff search_throws_empty)
qed

text \<open>
  A bad element before the entry of the email, after it, a loaded value that is an
  object, and a rejected read.
\<close>

theorem upsert_result_witness:
  "\<not> set_rejects calm \<and>
   getCredentialsFromKeychain symbolic calm bad_first_keychain =
     JArr [JNum 42, credential_json user1] \<and>
   search_throws symbolic ''user1@example.com'' (JArr [JNum 42, credential_json user1]) \<and>
   \<not> fst (storeCredentialsInKeychain symbolic calm ''user1@example.com'' ''newpassword''
          ''John'' ''Doe'' ''1234567890'' bad_first_keychain) \<and>
   getCredentialsFromKeychain symbolic calm bad_last_keychain =
     JArr [credential_json user1, JNum 42] \<and>
   \<not> search_throws symbolic ''user1@example.com'' (JArr [credential_json user1, JNum 42]) \<and>
   fst (storeCredentialsInKeychain symbolic calm ''user1@example.com'' ''newpassword''
          ''John'' ''Doe'' ''1234567890'' bad_last_keychain) \<and>
   search_throws symbolic ''user2@example.com'' (JArr [credential_json user1, JNum 42]) \<and>
   \<not> fst (storeCredentialsInKeychain symbolic calm ''user2@example.com'' ''securepass456''
          ''Jane'' ''Smith'' ''0987654321'' bad_last_keychain) \<and>
   \<not> fst (storeCredentialsInKeychain symbolic calm ''user2@example.com'' ''securepass456''
          ''Jane'' ''Smith'' ''0987654321'' tampered_keychain) \<and>
   get_rejects read_fails \<and> \<not> set_rejects read_fails \<and>
   fst (storeCredentialsInKeychain symbolic read_fails ''user2@example.com'' ''securepass456''
          ''Jane'' ''Smith'' ''0987654321'' one_user_keychain)"
proof -
  have e: "\<not> set_rejects calm" "get_rejects read_fails" "\<not> set_rejects read_fails"
    "\<not> get_rejects calm"
    by (simp_all add: read_fails_def calm_def)
  have l1: "getCredentialsFromKeychain symbolic calm bad_first_keychain =
              JArr [JNum 42, credential_json user1]"
    and l2: "getCredentialsFromKeychain symbolic calm bad_last_keychain =
              JArr [credential_json user1, JNum 42]"
    and l3: "getCredentialsFromKeychain symbolic calm tampered_keychain =
              JObj (fmap_of_list [(''other'', JNum 1)])"
    using e(4)
    by (simp_all add: getCredentialsFromKeychain_slot slot_content_def bad_first_keychain_def
        bad_last_keychain_def tampered_keychain_def symbolic_def services_distinct)
  have t: "toLowerCase symbolic ''user1@example.com'' = ''user1@example.com''"
    "toLowerCase symbolic ''user2@example.com'' = ''user2@example.com''"
    by (simp_all add: symbolic_lower ascii_lower_def lower_char_def)
  have s1: "same_email symbolic ''user1@example.com'' (credential_json user1) = Inr True"
    and s2: "same_email symbolic ''user2@example.com'' (credential_json user1) = Inr False"
    by (simp_all add: same_email_credential normalized_def user1_def t)
  have s3: "same_email symbolic em (JNum 42) = Inl TypeError" for em
    by (simp add: same_email_def email_toLowerCase_def)
  have r1: "\<not> fst (storeCredentialsInKeychain symbolic calm ''user1@example.com''
          ''newpassword'' ''John'' ''Doe'' ''1234567890'' bad_first_keychain)"
    and r2: "fst (storeCredentialsInKeychain symbolic calm ''user1@example.com''
          ''newpassword'' ''John'' ''Doe'' ''1234567890'' bad_last_keychain)"
    and r3: "\<not> fst (storeCredentialsInKeychain symbolic calm ''user2@example.com''
          ''securepass456'' ''Jane'' ''Smith'' ''0987654321'' bad_last_keychain)"
    and r4: "\<not> fst (storeCredentialsInKeychain symbolic calm ''user2@example.com''
          ''securepass456'' ''Jane'' ''Smith'' ''0987654321'' tampered_keychain)"
    using e(1)
    by (simp_all add: storeCredentialsInKeychain_unfold l1 l2 l3 findIndex_def s1 s2 s3)
  note T = upsert_result [of symbolic calm _ _ _ _ _ bad_first_keychain]
    upsert_result [of symbolic calm _ _ _ _ _ bad_last_keychain]
    upsert_result [of symbolic read_fails _ _ _ _ _ one_user_keychain]
  from r1 r2 r3 e(1) T(1,2) [THEN conjunct1]
  have c1: "search_throws symbolic ''user1@example.com'' (JArr [JNum 42, credential_json user1])"
    and c2: "\<not> search_throws symbolic ''user1@example.com''
               (JArr [credential_json user1, JNum 42])"
    and c3: "search_throws symbolic ''user2@example.com''
               (JArr [credential_json user1, JNum 42])"
    unfolding l1 l2 by blast+
  from T(3) [THEN conjunct2] e(2,3)
  have c4: "fst (storeCredentialsInKeychain symbolic read_fails ''user2@example.com''
          ''securepass456'' ''Jane'' ''Smith'' ''0987654321'' one_user_keychain)"
    by blast
  from e(1) l1 c1 r1 l2 c2 r2 c3 r3 r4 e(2,3) c4 show ?thesis
    by blast
qed

text \<open>
  The claim as it was stated fails when the keystore rejects the read and accepts the
  write: a storage failure happens during the operation, and the operation returns
  \<^verbatim>\<open>true\<close>.
\<close>

theorem upsert_true_despite_read_failure:
  "get_rejects read_fails \<and>
   fst (storeCredentialsInKeychain symbolic read_fails ''user2@example.com'' ''securepass456''
          ''Jane'' ''Smith'' ''0987654321'' one_user_keychain) = True"
  by (simp add: storeCredentialsInKeychain_unfold getCredentialsFromKeychain_slot findIndex_def
      read_fails_def calm_def)

section \<open>The session\<close>



section \<open>Logout\<close>

text \<open>
  Claim C9.  The session manager's \<^verbatim>\<open>clearSession\<close> changes no slot but the session
  slot, and \<^verbatim>\<open>handleLogout\<close> leaves the credentials slot as it was: the list that
  \<^verbatim>\<open>getCredentialsFromKeychain\<close> reads after the logout is the list it reads before,
  whatever the keystore held and whether or not the resets were rejected.
\<close>

theorem logout_keeps_credentials:
  "snd (clearSession ev1 kc) =
     kc(session_service := (if reset_rejects ev1 then kc session_service else None)) \<and>
   keychain (handleLogout ev1 ev2 st) credentials_service = keychain st credentials_service \<and>
   getCredentialsFromKeychain pf ev (keychain (handleLogout ev1 ev2 st)) =
     getCredentialsFromKeychain pf ev (keychain st)"
  by (auto simp: keychain_handleLogout clearSession_unfold
      getCredentialsFromKeychain_slot slot_content_def services_distinct)

theorem logout_keeps_credentials_witness:
  "getCredentialsFromKeychain symbolic calm (keychain (handleLogout calm calm home_state)) =
     JArr [credential_json user1] \<and>
   getCredentialsFromKeychain symbolic calm (keychain home_state) = JArr [credential_json user1]"
proof -
  have "getCredentialsFromKeychain symbolic calm (keychain home_state) =
          JArr [credential_json user1]"
    by (simp add: getCredentialsFromKeychain_slot slot_content_def home_state_def
        logged_in_keychain_def one_user_keychain_def symbolic_def calm_def services_distinct
        ENCRYPTION_KEY_def)
  then show ?thesis
    using logout_keeps_credentials [of calm "keychain home_state" calm home_state symbolic calm]
    by simp
qed

text \<open>
  Claim C10.  When the keystore does not reject the two resets, \<^verbatim>\<open>handleLogout\<close> clears
  the user data slot (service \<^verbatim>\<open>AccountSetup\<close>) as well as the session slot: afterwards
  \<^verbatim>\<open>getUserDataFromKeychain\<close> and \<^verbatim>\<open>getSession\<close> return \<^verbatim>\<open>null\<close>, while the
  credentials slot is as it was.
\<close>

theorem logout_clears_user_data:
  assumes "\<not> reset_rejects ev1" and "\<not> reset_rejects ev2"
  shows "keychain (handleLogout ev1 ev2 st) KEYCHAIN_SERVICE = None \<and>
         keychain (handleLogout ev1 ev2 st) session_service = None \<and>
         getUserDataFromKeychain pf ev (keychain (handleLogout ev1 ev2 st)) = JNull \<and>
         getSession pf ev (keychain (handleLogout ev1 ev2 st)) = JNull \<and>
         keychain (handleLogout ev1 ev2 st) credentials_service = keychain st credentials_service"
  using assms
  by (simp add: keychain_handleLogout getUserDataFromKeychain_slot getSession_slot
      slot_content_def services_distinct)

theorem logout_clears_user_data_witness:
  "\<not> reset_rejects calm \<and>
   getUserDataFromKeychain symbolic calm (keychain home_state) \<noteq> JNull \<and>
   getUserDataFromKeychain symbolic calm (keychain (handleLogout calm calm home_state)) = JNull \<and>
   getSession symbolic calm (keychain (handleLogout calm calm home_state)) = JNull \<and>
   keychain (handleLogout calm calm home_state) credentials_service =
     keychain home_state credentials_service"
proof -
  have r: "\<not> reset_rejects calm"
    by (simp add: calm_def)
  have "getUserDataFromKeychain symbolic calm (keychain home_state) \<noteq> JNull"
    by (simp add: getUserDataFromKeychain_slot slot_content_def home_state_def
        logged_in_keychain_def symbolic_def calm_def userData_json_def)
  then show ?thesis
    using r logout_clears_user_data [OF r r, of home_state symbolic calm]
    by simp
qed

section \<open>Validation\<close>

text \<open>
  Claim C3.  For every stored list of credentials and every email and password,
  \<^verbatim>\<open>validateCredentials\<close> returns \<^verbatim>\<open>true\<close> if and only if some stored entry has the same
  lower-case email and exactly the supplied password.  The comparison of passwords is
  case-sensitive: on a stored list with at most one entry for each lower-case email,
  when a password is accepted every other password is rejected, in particular one that
  differs from it in letter case only.  Every list the service stores is of this kind:
  after any run of \<^verbatim>\<open>storeCredentialsInKeychain\<close> calls that starts from an absent
  credentials slot, on a platform whose cipher and JSON engine give back what they were
  given and whose lower-casing is idempotent, the stored value is a list of credentials,
  the equivalence holds for it, and changing an accepted password makes it rejected.
\<close>

theorem validate_iff_entry:
  "(getCredentialsFromKeychain pf ev kc = JArr (map credential_json cs) \<longrightarrow>
      (validateCredentials pf ev em pw kc \<longleftrightarrow>
         (\<exists>c\<in>set cs. toLowerCase pf (email c) = toLowerCase pf em \<and> password c = pw))) \<and>
   (getCredentialsFromKeychain pf ev kc = JArr (map credential_json cs) \<and>
    distinct (map (normalized pf) cs) \<and> validateCredentials pf ev em pw kc \<and> pw' \<noteq> pw \<longrightarrow>
      \<not> validateCredentials pf ev em pw' kc) \<and>
   (codec_roundtrip pf \<and> lower_idempotent pf \<and> kc0 credentials_service = None \<longrightarrow>
      (\<exists>cs0. getCredentialsFromKeychain pf ev (signups pf calls kc0) =
                JArr (map credential_json cs0) \<and>
              (validateCredentials pf ev em pw (signups pf calls kc0) \<longleftrightarrow>
                 (\<exists>c\<in>set cs0. toLowerCase pf (email c) = toLowerCase pf em \<and>
                               password c = pw)) \<and>
              (validateCredentials pf ev em pw (signups pf calls kc0) \<and> pw' \<noteq> pw \<longrightarrow>
                 \<not> validateCredentials pf ev em pw' (signups pf calls kc0))))"
proof (intro conjI impI)
  assume "getCredentialsFromKeychain pf ev kc = JArr (map credential_json cs)"
  then show "validateCredentials pf ev em pw kc \<longleftrightarrow>
         (\<exists>c\<in>set cs. toLowerCase pf (email c) = toLowerCase pf em \<and> password c = pw)"
    by (simp add: validateCredentials_on_list normalized_def)
next
  assume "getCredentialsFromKeychain pf ev kc = JArr (map credential_json cs) \<and>
    distinct (map (normalized pf) cs) \<and> validateCredentials pf ev em pw kc \<and> pw' \<noteq> pw"
  then show "\<not> validateCredentials pf ev em pw' kc"
    using validate_unique [of pf ev kc cs em pw pw'] by blast
next
  assume "codec_roundtrip pf \<and> lower_idempotent pf \<and> kc0 credentials_service = None"
  then obtain cs1 where h: "holds_credentials pf (signups pf calls kc0) cs1"
    and d: "distinct (map (normalized pf) cs1)"
    using run_from_absent [of pf kc0 calls] by blast
  let ?cs = "if get_rejects ev then [] else cs1"
  have l: "getCredentialsFromKeychain pf ev (signups pf calls kc0) =
             JArr (map credential_json ?cs)"
    using h by (rule read_of_holds)
  have d': "distinct (map (normalized pf) ?cs)"
    using d by simp
  have "validateCredentials pf ev em pw (signups pf calls kc0) \<longleftrightarrow>
          (\<exists>c\<in>set ?cs. toLowerCase pf (email c) = toLowerCase pf em \<and> password c = pw)"
    using l by (simp only: validateCredentials_on_list normalized_def)
  moreover have "\<not> validateCredentials pf ev em pw' (signups pf calls kc0)"
    if "validateCredentials pf ev em pw (signups pf calls kc0) \<and> pw' \<noteq> pw"
    using validate_unique [OF l d', of em pw pw'] that by blast
  ultimately show "\<exists>cs0. getCredentialsFromKeychain pf ev (signups pf calls kc0) =
                JArr (map credential_json cs0) \<and>
              (validateCredentials pf ev em pw (signups pf calls kc0) \<longleftrightarrow>
                 (\<exists>c\<in>set cs0. toLowerCase pf (email c) = toLowerCase pf em \<and>
                               password c = pw)) \<and>
              (validateCredentials pf ev em pw (signups pf calls kc0) \<and> pw' \<noteq> pw \<longrightarrow>
                 \<not> validateCredentials pf ev em pw' (signups pf calls kc0))"
    using l by blast
qed

text \<open>
  The scenario of the tests: one user signs up, then the right password and its upper
  case are tried under another spelling of the email.
\<close>

theorem validate_iff_entry_witness:
  "codec_roundtrip symbolic \<and> lower_idempotent symbolic \<and>
   empty_keychain credentials_service = None \<and>
   getCredentialsFromKeychain symbolic calm (signups symbolic [(calm, user1)] empty_keychain) =
     JArr (map credential_json [user1]) \<and>
   distinct (map (normalized symbolic) [user1]) \<and>
   validateCredentials symbolic calm ''USER1@EXAMPLE.COM'' ''password123''
     (signups symbolic [(calm, user1)] empty_keychain) \<and>
   ''PASSWORD123'' \<noteq> ''password123'' \<and>
   toLowerCase symbolic ''PASSWORD123'' = toLowerCase symbolic ''password123'' \<and>
   \<not> validateCredentials symbolic calm ''USER1@EXAMPLE.COM'' ''PASSWORD123''
       (signups symbolic [(calm, user1)] empty_keychain)"
proof -
  let ?kc = "signups symbolic [(calm, user1)] empty_keychain"
  have r: "codec_roundtrip symbolic" and i: "lower_idempotent symbolic"
    by (rule symbolic_roundtrip, rule symbolic_lower_idempotent)
  have a: "empty_keychain credentials_service = None"
    by (simp add: empty_keychain_def)
  have g: "\<not> get_rejects calm" and w: "\<not> set_rejects calm"
    by (simp_all add: calm_def)
  have t: "toLowerCase symbolic ''user1@example.com'' = ''user1@example.com''"
    "toLowerCase symbolic ''USER1@EXAMPLE.COM'' = ''user1@example.com''"
    "toLowerCase symbolic ''PASSWORD123'' = ''password123''"
    "toLowerCase symbolic ''password123'' = ''password123''"
    by (simp_all add: symbolic_lower ascii_lower_def lower_char_def)
  have "holds_credentials symbolic ?kc [user1]"
    using store_calm [OF r holds_absent [of empty_keychain, OF a] g w, of "email user1"
        "password user1" "firstName user1" "lastName user1" "phoneNumber user1"]
    by (simp add: user1_def t)
  from read_of_holds [OF this, of calm] g
  have l: "getCredentialsFromKeychain symbolic calm ?kc = JArr (map credential_json [user1])"
    by simp
  have e: "toLowerCase symbolic (email user1) = toLowerCase symbolic ''USER1@EXAMPLE.COM''"
    and p: "password user1 = ''password123''"
    and n: "''PASSWORD123'' \<noteq> ''password123''"
    by (simp_all add: user1_def t)
  note T = validate_iff_entry [of symbolic calm ?kc "[user1]" "''USER1@EXAMPLE.COM''"
      "''password123''" "''PASSWORD123''" empty_keychain "[(calm, user1)]"]
  from T [THEN conjunct1] l e p
  have v: "validateCredentials symbolic calm ''USER1@EXAMPLE.COM'' ''password123'' ?kc"
    by simp
  have d: "distinct (map (normalized symbolic) [user1])"
    by simp
  from T [THEN conjunct2, THEN conjunct2] r i a v n
  have "\<not> validateCredentials symbolic calm ''USER1@EXAMPLE.COM'' ''PASSWORD123'' ?kc"
    by blast
  with r i a l d v n t(3,4) show ?thesis
    by simp
qed

section \<open>Lockout\<close>

text \<open>
  Claim C5.  The threshold is five.  From a login screen with no failed attempt and no
  lockout, a run of up to five submits that all fail validation counts each failure, calls
  \<^verbatim>\<open>validateCredentials\<close> once per submit, and ends locked out exactly when it has five
  submits.  A submit in a locked state only sets the lockout message: it makes no call to
  the service, in particular none to \<^verbatim>\<open>validateCredentials\<close>, and the state stays
  locked.  A change of the email field to another value sets the counter to zero and
  lifts the lockout.
\<close>

theorem lockout_machine:
  assumes "failedAttempts st = 0" and "\<not> isLockedOut st" and "length evs \<le> 5"
    and "\<forall>e\<in>set evs. \<not> validateCredentials pf (fst e) (values_email st)
           (values_password st) (keychain st)"
  shows "MAX_FAILED_ATTEMPTS = 5 \<and>
         failedAttempts (submits pf evs st) = length evs \<and>
         invoked (submits pf evs st) = invoked st @ replicate (length evs) ValidateCredentials \<and>
         (isLockedOut (submits pf evs st) \<longleftrightarrow> length evs = 5) \<and>
         (isLockedOut s \<longrightarrow>
            onSubmit pf evV evG evC s = s\<lparr>loginError := locked_out_message\<rparr> \<and>
            invoked (onSubmit pf evV evG evC s) = invoked s \<and>
            isLockedOut (onSubmit pf evV evG evC s)) \<and>
         (v \<noteq> values_email s \<longrightarrow>
            failedAttempts (changeEmail v s) = 0 \<and> \<not> isLockedOut (changeEmail v s))"
proof -
  have "failedAttempts st + length evs \<le> MAX_FAILED_ATTEMPTS"
    using assms(1,3) by (simp add: MAX_FAILED_ATTEMPTS_def)
  from failed_submits [OF assms(4,2) this] assms(1)
  have "failedAttempts (submits pf evs st) = length evs"
    and "isLockedOut (submits pf evs st) \<longleftrightarrow> length evs = 5"
    and "invoked (submits pf evs st) = invoked st @ replicate (length evs) ValidateCredentials"
    by (auto simp: MAX_FAILED_ATTEMPTS_def)
  then show ?thesis
    by (simp add: onSubmit_locked changeEmail_resets MAX_FAILED_ATTEMPTS_def)
qed

text \<open>Five submits of a wrong password for the stored user, a sixth, and a new email.\<close>

theorem lockout_machine_witness:
  "failedAttempts login_state = 0 \<and> \<not> isLockedOut login_state \<and>
   \<not> validateCredentials symbolic calm (values_email login_state)
       (values_password login_state) (keychain login_state) \<and>
   isLockedOut (submits symbolic (replicate 5 (calm, calm, calm)) login_state) \<and>
   invoked (submits symbolic (replicate 5 (calm, calm, calm)) login_state) =
     replicate 5 ValidateCredentials \<and>
   invoked (onSubmit symbolic calm calm calm
              (submits symbolic (replicate 5 (calm, calm, calm)) login_state)) =
     replicate 5 ValidateCredentials \<and>
   ''user2@example.com'' \<noteq> values_email
      (submits symbolic (replicate 5 (calm, calm, calm)) login_state) \<and>
   \<not> isLockedOut (changeEmail ''user2@example.com''
        (submits symbolic (replicate 5 (calm, calm, calm)) login_state)) \<and>
   failedAttempts (changeEmail ''user2@example.com''
        (submits symbolic (replicate 5 (calm, calm, calm)) login_state)) = 0"
proof -
  let ?evs = "replicate 5 (calm, calm, calm)"
  let ?s5 = "submits symbolic ?evs login_state"
  have l: "getCredentialsFromKeychain symbolic calm one_user_keychain =
             JArr (map credential_json [user1])"
    by (simp add: getCredentialsFromKeychain_slot slot_content_def one_user_keychain_def
        symbolic_def calm_def)
  have bad: "\<not> validateCredentials symbolic calm (values_email login_state)
               (values_password login_state) (keychain login_state)"
    by (simp add: validateCredentials_on_list [OF l] login_state_def user1_def)
  have h1: "failedAttempts login_state = 0" and h2: "\<not> isLockedOut login_state"
    and i: "invoked login_state = []"
    by (simp_all add: login_state_def)
  have h3: "length ?evs \<le> 5"
    by (simp only: length_replicate order_refl)
  have h4: "\<forall>e\<in>set ?evs. \<not> validateCredentials symbolic (fst e) (values_email login_state)
              (values_password login_state) (keychain login_state)"
    using bad by simp
  have b: "failedAttempts login_state + length ?evs \<le> MAX_FAILED_ATTEMPTS"
    by (simp only: h1 length_replicate MAX_FAILED_ATTEMPTS_def)
  have "values_email ?s5 = values_email login_state"
    using failed_submits [OF h4 h2 b] by (elim conjE)
  then have e: "''user2@example.com'' \<noteq> values_email ?s5"
    by (simp add: login_state_def)
  note T = lockout_machine [OF h1 h2 h3 h4, of ?s5 calm calm calm "''user2@example.com''"]
  have len: "length ?evs = 5"
    by (simp only: length_replicate)
  from T have t2: "invoked ?s5 = invoked login_state @ replicate (length ?evs) ValidateCredentials"
    and t3: "isLockedOut ?s5 \<longleftrightarrow> length ?evs = 5" 
    and t4: "isLockedOut ?s5 \<longrightarrow> 
            onSubmit symbolic calm calm calm ?s5 = ?s5\<lparr>loginError := locked_out_message\<rparr> \<and>
            invoked (onSubmit symbolic calm calm calm ?s5) = invoked ?s5 \<and>
            isLockedOut (onSubmit symbolic calm calm calm ?s5)"
    and t5: "''user2@example.com'' \<noteq> values_email ?s5 \<longrightarrow>
            failedAttempts (changeEmail ''user2@example.com'' ?s5) = 0 \<and> \<not> isLockedOut (changeEmail ''user2@example.com'' ?s5)"
    by blast+
  from t3 len have c1: "isLockedOut ?s5"
    by (simp only:)
  from t2 have c2: "invoked ?s5 = replicate 5 ValidateCredentials"
    by (simp only: i len append_Nil)
  from t4 c1 have "invoked (onSubmit symbolic calm calm calm ?s5) = invoked ?s5"
    by blast
  then have c3: "invoked (onSubmit symbolic calm calm calm ?s5) =
      replicate 5 ValidateCredentials"
    using c2 by (rule trans)
  from t5 e have c4: "failedAttempts (changeEmail ''user2@example.com'' ?s5) = 0"
    and c5: "\<not> isLockedOut (changeEmail ''user2@example.com'' ?s5)"
    by blast+
  from h1 h2 bad c1 c2 c3 e c5 c4 show ?thesis
    by (intro conjI)
qed

section \<open>Round trip\<close>

text \<open>
  Claim C2.  On a platform whose cipher and JSON engine give back what they were given
  and whose lower-casing is idempotent, for every email, password, first name, last name
  and phone number and every keystore: \<^verbatim>\<open>storeCredentialsInKeychain\<close> succeeds exactly
  when the keystore accepts the write and the search through the loaded list does not
  throw, and after it has succeeded a \<^verbatim>\<open>getCredentialByEmail\<close> of that email whose
  read is not rejected returns the credential with the stored fields and the email in
  lower case.
\<close>

theorem upsert_then_findByEmail:
  assumes "codec_roundtrip pf" and "lower_idempotent pf"
    and "storeCredentialsInKeychain pf ev em pw fn ln ph kc = (ok, kc')"
    and "\<not> get_rejects ev'"
  shows "(ok \<longleftrightarrow>
            \<not> set_rejects ev \<and>
            \<not> search_throws pf em (getCredentialsFromKeychain pf ev kc)) \<and>
         (ok \<longrightarrow>
            getCredentialByEmail pf ev' em kc' =
              credential_json \<lparr>email = toLowerCase pf em, firstName = fn, lastName = ln,
                phoneNumber = ph, password = pw\<rparr>)"
proof
  show "ok \<longleftrightarrow>
          \<not> set_rejects ev \<and> \<not> search_throws pf em (getCredentialsFromKeychain pf ev kc)"
    using store_succeeds_iff [of pf ev em pw fn ln ph kc] assms(3) by simp
next
  let ?new = "credential_json \<lparr>email = toLowerCase pf em, firstName = fn, lastName = ln,
             phoneNumber = ph, password = pw\<rparr>"
  let ?old = "getCredentialsFromKeychain pf ev kc"
  show "ok \<longrightarrow> getCredentialByEmail pf ev' em kc' = ?new"
  proof
    assume ok
    with assms(3) obtain i where i: "findIndex (same_email pf em) ?old = Inr i"
      and kc': "kc' = kc(credentials_service \<mapsto> (CREDENTIALS_KEY,
                  encryptData pf ev (json_stringify pf (JArr
                    (if i \<ge> 0 then (elements ?old)[nat i := ?new]
                     else elements ?old @ [?new])))))"
      by (auto simp: storeCredentialsInKeychain_unfold split: sum.splits if_splits)
    from i obtain xs where xs: "?old = JArr xs"
      and f: "findIndex_from (same_email pf em) xs 0 = Inr i"
      by (auto simp: findIndex_def split: json.splits)
    let ?upd = "if i \<ge> 0 then xs[nat i := ?new] else xs @ [?new]"
    have "getCredentialsFromKeychain pf ev' kc' = JArr ?upd"
      using assms(1,4) kc' xs
      by (simp add: getCredentialsFromKeychain_slot slot_content_written)
    moreover have "find_in (same_email pf em) ?upd = Inr (Some ?new)"
      using find_after_upsert [OF _ f same_email_new [OF assms(2)], of fn ln ph pw] by auto
    ultimately show "getCredentialByEmail pf ev' em kc' = ?new"
      by (simp add: getCredentialByEmail_unfold find_elem_def truthy_credential)
  qed
qed

text \<open>The sign-up of the scenario, on a keystore that holds another user.\<close>

theorem upsert_then_findByEmail_witness:
  "codec_roundtrip symbolic \<and> lower_idempotent symbolic \<and>
   \<not> get_rejects calm \<and> \<not> set_rejects calm \<and>
   \<not> search_throws symbolic ''Test@Example.com''
       (getCredentialsFromKeychain symbolic calm one_user_keychain) \<and>
   storeCredentialsInKeychain symbolic calm ''Test@Example.com'' ''password123'' ''John'' ''Doe''
       ''5551234567'' one_user_keychain =
     (True, one_user_keychain(credentials_service \<mapsto> (CREDENTIALS_KEY,
        Cipher ENCRYPTION_KEY 7 (Text (JArr
          [credential_json user1,
           credential_json \<lparr>email = ''test@example.com'', firstName = ''John'',
             lastName = ''Doe'', phoneNumber = ''5551234567'', password = ''password123''\<rparr>]))))) \<and>
   getCredentialByEmail symbolic calm ''Test@Example.com''
       (snd (storeCredentialsInKeychain symbolic calm ''Test@Example.com'' ''password123''
          ''John'' ''Doe'' ''5551234567'' one_user_keychain)) =
     credential_json \<lparr>email = ''test@example.com'', firstName = ''John'',
       lastName = ''Doe'', phoneNumber = ''5551234567'', password = ''password123''\<rparr>"
proof -
  have r: "codec_roundtrip symbolic" and i: "lower_idempotent symbolic"
    by (rule symbolic_roundtrip, rule symbolic_lower_idempotent)
  have g: "\<not> get_rejects calm" and w: "\<not> set_rejects calm"
    by (simp_all add: calm_def)
  have l: "getCredentialsFromKeychain symbolic calm one_user_keychain =
             JArr [credential_json user1]"
    by (simp add: getCredentialsFromKeychain_slot slot_content_def one_user_keychain_def
        symbolic_def calm_def)
  have n: "normalized symbolic user1 \<noteq> toLowerCase symbolic ''Test@Example.com''"
    and t: "toLowerCase symbolic ''Test@Example.com'' = ''test@example.com''"
    by (simp_all add: normalized_def user1_def symbolic_lower ascii_lower_def lower_char_def)
  have s: "storeCredentialsInKeychain symbolic calm ''Test@Example.com'' ''password123'' ''John''
       ''Doe'' ''5551234567'' one_user_keychain =
     (True, one_user_keychain(credentials_service \<mapsto> (CREDENTIALS_KEY,
        Cipher ENCRYPTION_KEY 7 (Text (JArr
          [credential_json user1,
           credential_json \<lparr>email = ''test@example.com'', firstName = ''John'',
             lastName = ''Doe'', phoneNumber = ''5551234567'', password = ''password123''\<rparr>])))))"
    using n
    by (simp add: storeCredentialsInKeychain_unfold l findIndex_def same_email_credential t
        encryptData_def) (simp add: calm_def symbolic_def)
  note T = upsert_then_findByEmail [OF r i s g]
  from T [THEN conjunct1] w
  have c: "\<not> search_throws symbolic ''Test@Example.com''
             (getCredentialsFromKeychain symbolic calm one_user_keychain)"
    by simp
  from T [THEN conjunct2]
  have "getCredentialByEmail symbolic calm ''Test@Example.com''
       (one_user_keychain(credentials_service \<mapsto> (CREDENTIALS_KEY,
        Cipher ENCRYPTION_KEY 7 (Text (JArr
          [credential_json user1,
           credential_json \<lparr>email = ''test@example.com'', firstName = ''John'',
             lastName = ''Doe'', phoneNumber = ''5551234567'', password = ''password123''\<rparr>]))))) =
     credential_json \<lparr>email = ''test@example.com'', firstName = ''John'',
       lastName = ''Doe'', phoneNumber = ''5551234567'', password = ''password123''\<rparr>"
    by (simp add: t)
  with r i g w c s show ?thesis
    by simp
qed

section \<open>One entry per email\<close>

text \<open>
  Claim C1.  On a platform whose cipher and JSON engine give back what they were given
  and whose lower-casing is idempotent, after any run of \<^verbatim>\<open>storeCredentialsInKeychain\<close>
  calls that starts from an absent credentials slot, whatever the keystore rejects on the
  way, the stored list is a list of credentials in which no two entries have the same
  lower-case email.  In particular, when two further calls have emails with the same
  lower-case form and the keystore accepts the write of the second, the second call
  returns \<^verbatim>\<open>true\<close> and the stored list has exactly one entry for that email, whose
  password, first name, last name and phone number are those of the second call.
\<close>

theorem upsert_unique_per_email:
  assumes "codec_roundtrip pf" and "lower_idempotent pf"
    and "kc0 credentials_service = None"
  shows "(\<exists>cs. getCredentialsFromKeychain pf ev (signups pf calls kc0) =
                 JArr (map credential_json cs) \<and>
               distinct (map (normalized pf) cs)) \<and>
         (toLowerCase pf e1 = toLowerCase pf e2 \<and> \<not> set_rejects ev2 \<and> \<not> get_rejects ev \<longrightarrow>
            fst (storeCredentialsInKeychain pf ev2 e2 p2 f2 l2 h2
                   (snd (storeCredentialsInKeychain pf ev1 e1 p1 f1 l1 h1
                           (signups pf calls kc0)))) \<and>
            (\<exists>cs. getCredentialsFromKeychain pf ev
                     (snd (storeCredentialsInKeychain pf ev2 e2 p2 f2 l2 h2
                        (snd (storeCredentialsInKeychain pf ev1 e1 p1 f1 l1 h1
                                (signups pf calls kc0))))) =
                    JArr (map credential_json cs) \<and>
                  distinct (map (normalized pf) cs) \<and>
                  filter (\<lambda>c. normalized pf c = toLowerCase pf e2) cs =
                    [\<lparr>email = toLowerCase pf e2, firstName = f2, lastName = l2,
                      phoneNumber = h2, password = p2\<rparr>]))"
proof -
  let ?k0 = "signups pf calls kc0"
  let ?k1 = "snd (storeCredentialsInKeychain pf ev1 e1 p1 f1 l1 h1 ?k0)"
  let ?s2 = "storeCredentialsInKeychain pf ev2 e2 p2 f2 l2 h2 ?k1"
  obtain cs where h: "holds_credentials pf ?k0 cs"
    and d: "distinct (map (normalized pf) cs)"
    using run_from_absent [of pf kc0 calls] assms by blast
  have A: "\<exists>cs. getCredentialsFromKeychain pf ev ?k0 = JArr (map credential_json cs) \<and>
                 distinct (map (normalized pf) cs)"
    using read_of_holds [OF h, of ev] d by (cases "get_rejects ev") auto
  have B: "fst ?s2 \<and>
           (\<exists>cs. getCredentialsFromKeychain pf ev (snd ?s2) = JArr (map credential_json cs) \<and>
                  distinct (map (normalized pf) cs) \<and>
                  filter (\<lambda>c. normalized pf c = toLowerCase pf e2) cs =
                    [\<lparr>email = toLowerCase pf e2, firstName = f2, lastName = l2,
                      phoneNumber = h2, password = p2\<rparr>])"
    if w: "\<not> set_rejects ev2" and g: "\<not> get_rejects ev"
  proof -
    from holds_step [OF assms(1,2) h d, of ev1 e1 p1 f1 l1 h1]
    obtain cs1 where h1: "holds_credentials pf ?k1 cs1"
      and d1: "distinct (map (normalized pf) cs1)"
      by blast
    from holds_step [OF assms(1,2) h1 d1, of ev2 e2 p2 f2 l2 h2] w
    obtain cs2 where "holds_credentials pf (snd ?s2) cs2"
      and "distinct (map (normalized pf) cs2)" and "fst ?s2"
      and "filter (\<lambda>c. normalized pf c = toLowerCase pf e2) cs2 =
             [\<lparr>email = toLowerCase pf e2, firstName = f2, lastName = l2,
               phoneNumber = h2, password = p2\<rparr>]"
      by auto
    then show ?thesis
      using read_of_holds [of pf "snd ?s2" cs2 ev] g by auto
  qed
  from A B show ?thesis by blast
qed

text \<open>
  A sign-up of a second user, then two sign-ups of the first under two spellings of the
  email.
\<close>

theorem upsert_unique_per_email_witness:
  "codec_roundtrip symbolic \<and> lower_idempotent symbolic \<and>
   empty_keychain credentials_service = None \<and>
   toLowerCase symbolic ''User1@Example.com'' = toLowerCase symbolic ''USER1@EXAMPLE.COM'' \<and>
   \<not> set_rejects calm \<and> \<not> get_rejects calm \<and>
   fst (storeCredentialsInKeychain symbolic calm ''USER1@EXAMPLE.COM'' ''newpassword''
          ''Johnny'' ''Dow'' ''5551234567''
          (snd (storeCredentialsInKeychain symbolic calm ''User1@Example.com'' ''password123''
                  ''John'' ''Doe'' ''1234567890'' (signups symbolic [(calm, user2)] empty_keychain)))) \<and>
   getCredentialsFromKeychain symbolic calm
     (snd (storeCredentialsInKeychain symbolic calm ''USER1@EXAMPLE.COM'' ''newpassword''
          ''Johnny'' ''Dow'' ''5551234567''
          (snd (storeCredentialsInKeychain symbolic calm ''User1@Example.com'' ''password123''
                  ''John'' ''Doe'' ''1234567890'' (signups symbolic [(calm, user2)] empty_keychain))))) =
     JArr (map credential_json
       [user2,
        \<lparr>email = ''user1@example.com'', firstName = ''Johnny'', lastName = ''Dow'',
          phoneNumber = ''5551234567'', password = ''newpassword''\<rparr>])"
proof -
  let ?k0 = "signups symbolic [(calm, user2)] empty_keychain"
  let ?k1 = "snd (storeCredentialsInKeychain symbolic calm ''User1@Example.com'' ''password123''
                  ''John'' ''Doe'' ''1234567890'' ?k0)"
  let ?k2 = "snd (storeCredentialsInKeychain symbolic calm ''USER1@EXAMPLE.COM'' ''newpassword''
          ''Johnny'' ''Dow'' ''5551234567'' ?k1)"
  let ?new = "\<lparr>email = ''user1@example.com'', firstName = ''Johnny'', lastName = ''Dow'',
          phoneNumber = ''5551234567'', password = ''newpassword''\<rparr>"
  have r: "codec_roundtrip symbolic" and i: "lower_idempotent symbolic"
    by (rule symbolic_roundtrip, rule symbolic_lower_idempotent)
  have e: "empty_keychain credentials_service = None"
    by (simp add: empty_keychain_def)
  have g: "\<not> get_rejects calm" and w: "\<not> set_rejects calm"
    by (simp_all add: calm_def)
  have t: "toLowerCase symbolic ''User1@Example.com'' = ''user1@example.com''"
    "toLowerCase symbolic ''USER1@EXAMPLE.COM'' = ''user1@example.com''"
    "toLowerCase symbolic ''user2@example.com'' = ''user2@example.com''"
    "toLowerCase symbolic ''user1@example.com'' = ''user1@example.com''"
    by (simp_all add: symbolic_lower ascii_lower_def lower_char_def)
  have h: "holds_credentials symbolic empty_keychain []"
    using e by (rule holds_absent)
  have h0: "holds_credentials symbolic ?k0 [user2]"
    using store_calm [OF r h g w, of "email user2" "password user2" "firstName user2"
        "lastName user2" "phoneNumber user2"]
    by (simp add: user2_def t)
  have h1: "holds_credentials symbolic ?k1
              [user2, \<lparr>email = ''user1@example.com'', firstName = ''John'', lastName = ''Doe'',
                 phoneNumber = ''1234567890'', password = ''password123''\<rparr>]"
    using store_calm [OF r h0 g w, of "''User1@Example.com''" "''password123''" "''John''"
        "''Doe''" "''1234567890''"]
    by (simp add: t normalized_def user2_def)
  have h2: "holds_credentials symbolic ?k2 [user2, ?new]"
    using store_calm [OF r h1 g w, of "''USER1@EXAMPLE.COM''" "''newpassword''" "''Johnny''"
        "''Dow''" "''5551234567''"]
    by (simp add: t normalized_def user2_def)
  have l: "getCredentialsFromKeychain symbolic calm ?k2 = JArr (map credential_json [user2, ?new])"
    using read_of_holds [OF h2, of calm] g by simp
  have c: "toLowerCase symbolic ''User1@Example.com'' = toLowerCase symbolic ''USER1@EXAMPLE.COM''"
    by (simp only: t)
  note T = upsert_unique_per_email [of symbolic empty_keychain calm "[(calm, user2)]"
      "''User1@Example.com''" "''USER1@EXAMPLE.COM''" calm "''newpassword''" "''Johnny''"
      "''Dow''" "''5551234567''" calm "''password123''" "''John''" "''Doe''" "''1234567890''",
      OF r i e, THEN conjunct2, rule_format]
  from T [OF conjI [OF c conjI [OF w g]]]
  have s2: "fst (storeCredentialsInKeychain symbolic calm ''USER1@EXAMPLE.COM'' ''newpassword''
          ''Johnny'' ''Dow'' ''5551234567'' ?k1)"
    by blast
  show ?thesis
    using r i e c w g s2 l by blast
qed

end
